theory Spec2Isabelle
  imports Main "HOL-Library.Word"
begin

unbundle bit_operations_syntax

section \<open>The Morse code table\<close>

text \<open>
  The constants at the head of the library. \<open>morseTreeLevels\<close> is written in the source
  as \<open>log(morseTreetop+1)/log(2)\<close>, the binary logarithm of 64, and is taken here as the
  integer 6 it stands for.
\<close>

definition morseTreetop :: int where
  "morseTreetop = 63"

definition morseTableLength :: int where
  "morseTableLength = (morseTreetop * 2) + 1"

definition morseTreeLevels :: nat where
  "morseTreeLevels = 6"

text \<open>
  The table for ITU Morse code with punctuation: 127 characters, the dichotomic search
  tree laid out in order. The double quote and the apostrophe are written by their codes.
\<close>

definition morseTable :: "char list" where
  "morseTable =
     ''*5*H*4*S***V*3*I***F***U?*_**2*E***L'' @ [CHR 0x22] @ ''**R*+.****A***P@**W***J''
     @ [CHR 0x27] @ ''1* *6-B*=*D*/''
     @ ''*X***N***C;*!K*()Y***T*7*Z**,G***Q***M:8*!***O*9***0*''"

section \<open>The decoder\<close>

text \<open>
  The fields of \<open>morseDecoder\<close>, as the constructor and \<open>decode\<close> use them. The
  millisecond timers are signed and are modelled as unbounded integers; every division
  of the source has a non-negative dividend and a positive divisor, where the truncating
  division of C++ and \<open>div\<close> agree.
\<close>

record morseDecoder =
  morseInPin :: int
  morseAudio :: bool
  activeLow :: bool
  wpm :: int
  AudioThreshold :: int
  debounceDelay :: int
  dotTime :: int
  dashTime :: int
  wordSpace :: int
  morseTableJumper :: int
  morseTablePointer :: int
  morseKeyer :: bool
  morseSignalState :: bool
  lastKeyerState :: bool
  gotLastSig :: bool
  morseSpace :: bool
  decodedMorseChar :: char
  lastDebounceTime :: int
  markTime :: int
  spaceTime :: int
  currentTime :: int
  audioSignal :: int

text \<open>The constructor \<open>morseDecoder::morseDecoder(decodePin, listenAudio, morsePullup)\<close>.\<close>

definition new_morseDecoder :: "int \<Rightarrow> bool \<Rightarrow> bool \<Rightarrow> morseDecoder" where
  "new_morseDecoder decodePin listenAudio morsePullup =
     \<lparr> morseInPin = decodePin,
       morseAudio = listenAudio,
       activeLow = morsePullup,
       wpm = 13,
       AudioThreshold = 700,
       debounceDelay = 20,
       dotTime = 1200 div 13,
       dashTime = 3 * 1200 div 13,
       wordSpace = 7 * 1200 div 13,
       morseTableJumper = (morseTreetop + 1) div 2,
       morseTablePointer = morseTreetop,
       morseKeyer = False,
       morseSignalState = False,
       lastKeyerState = False,
       gotLastSig = True,
       morseSpace = True,
       decodedMorseChar = CHR 0x00,
       lastDebounceTime = 0,
       markTime = 0,
       spaceTime = 0,
       currentTime = 0,
       audioSignal = 0 \<rparr>"

text \<open>\<open>morseDecoder::setspeed\<close>.\<close>

definition decoder_setspeed :: "int \<Rightarrow> morseDecoder \<Rightarrow> morseDecoder" where
  "decoder_setspeed v s =
     (let w = (if v \<le> 0 then 1 else v)
      in s\<lparr> wpm := w,
            dotTime := 1200 div w,
            dashTime := 3 * 1200 div w,
            wordSpace := 7 * 1200 div w \<rparr>)"

text \<open>\<open>morseDecoder::available\<close> and \<open>morseDecoder::read\<close>.\<close>

definition decoder_available :: "morseDecoder \<Rightarrow> bool" where
  "decoder_available s = (if decodedMorseChar s \<noteq> CHR 0x00 then True else False)"

definition decoder_read :: "morseDecoder \<Rightarrow> char \<times> morseDecoder" where
  "decoder_read s = (let temp = decodedMorseChar s in (temp, s\<lparr> decodedMorseChar := CHR 0x00 \<rparr>))"

text \<open>
  \<open>morseDecoder::decode\<close>, one call of the scheduler loop. The call reads the clock
  (\<open>millis()\<close>) and one of the two inputs: the level of the key pin (\<open>digitalRead\<close>) or an
  audio sample (\<open>analogRead\<close>); the three readings are the arguments of the model.

  The first part reads the signal: the debounced key, or the thresholded audio.
\<close>

definition read_keyer :: "bool \<Rightarrow> morseDecoder \<Rightarrow> morseDecoder" where
  "read_keyer pinLevel s =
     (let s1 = s\<lparr> morseKeyer := (if activeLow s then \<not> pinLevel else pinLevel) \<rparr>;
          s2 = (if morseKeyer s1 \<noteq> lastKeyerState s1
                then s1\<lparr> lastDebounceTime := currentTime s1 \<rparr> else s1)
      in if currentTime s2 - lastDebounceTime s2 > debounceDelay s2
         then (let s3 = s2\<lparr> morseSignalState := morseKeyer s2 \<rparr>
               in if morseSignalState s3
                  then s3\<lparr> markTime := lastDebounceTime s3 \<rparr>
                  else s3\<lparr> spaceTime := lastDebounceTime s3 \<rparr>)
         else s2)"

definition read_audio :: "int \<Rightarrow> morseDecoder \<Rightarrow> morseDecoder" where
  "read_audio sample s =
     (let s1 = s\<lparr> audioSignal := sample \<rparr>
      in if audioSignal s1 > AudioThreshold s1
         then (let s2 = (if currentTime s1 - lastDebounceTime s1 > dotTime s1 div 2
                         then s1\<lparr> markTime := currentTime s1, morseSignalState := True \<rparr>
                         else s1)
               in s2\<lparr> lastDebounceTime := currentTime s2 \<rparr>)
         else (if currentTime s1 - lastDebounceTime s1 > dotTime s1 div 2
                  \<and> morseSignalState s1
               then s1\<lparr> spaceTime := lastDebounceTime s1, morseSignalState := False \<rparr>
               else s1))"

definition read_signals :: "bool \<Rightarrow> int \<Rightarrow> morseDecoder \<Rightarrow> morseDecoder" where
  "read_signals pinLevel sample s =
     (if \<not> morseAudio s then read_keyer pinLevel s else read_audio sample s)"

text \<open>
  The branch \<open>if (!gotLastSig)\<close>: the pulse that has just ended moves the table pointer
  as a dot or as a dash, or, when the jumper is used up, the error mark is written.
\<close>

definition classify_pulse :: "morseDecoder \<Rightarrow> morseDecoder" where
  "classify_pulse s =
     (if \<not> gotLastSig s then
        (if morseTableJumper s > 0 then
           (if currentTime s - spaceTime s > dotTime s div 2 then
              (if spaceTime s - markTime s > dotTime s div 4 then
                 (if spaceTime s - markTime s < dashTime s div 2 then
                    s\<lparr> morseTablePointer := morseTablePointer s - morseTableJumper s,
                       morseTableJumper := morseTableJumper s div 2,
                       gotLastSig := True \<rparr>
                  else if spaceTime s - markTime s < dashTime s + dotTime s then
                    s\<lparr> morseTablePointer := morseTablePointer s + morseTableJumper s,
                       morseTableJumper := morseTableJumper s div 2,
                       gotLastSig := True \<rparr>
                  else s)
               else s)
            else s)
         else
           s\<lparr> decodedMorseChar := CHR ''#'',
              gotLastSig := True,
              morseTableJumper := (morseTreetop + 1) div 2,
              morseTablePointer := morseTreetop \<rparr>)
      else s)"

text \<open>The two writes that follow: the decoded character, then the space.\<close>

definition write_character :: "morseDecoder \<Rightarrow> morseDecoder" where
  "write_character s =
     (if currentTime s - spaceTime s \<ge> dotTime s * 2
         \<and> morseTableJumper s < (morseTreetop + 1) div 2
      then s\<lparr> decodedMorseChar := morseTable ! nat (morseTablePointer s),
              morseTableJumper := (morseTreetop + 1) div 2,
              morseTablePointer := morseTreetop \<rparr>
      else s)"

definition write_space :: "morseDecoder \<Rightarrow> morseDecoder" where
  "write_space s =
     (if currentTime s - spaceTime s > wordSpace s * 2 div 3 \<and> morseSpace s = False
      then s\<lparr> decodedMorseChar := CHR '' '', morseSpace := True \<rparr>
      else s)"

definition decode :: "int \<Rightarrow> bool \<Rightarrow> int \<Rightarrow> morseDecoder \<Rightarrow> morseDecoder" where
  "decode millis pinLevel sample s =
     (let s1 = read_signals pinLevel sample (s\<lparr> currentTime := millis \<rparr>);
          s2 = (if \<not> morseSignalState s1
                then write_space (write_character (classify_pulse s1))
                else s1\<lparr> gotLastSig := False, morseSpace := False \<rparr>)
      in s2\<lparr> lastKeyerState := morseKeyer s2 \<rparr>)"

section \<open>The encoder\<close>

text \<open>
  The fields of \<open>morseEncoder\<close>. The speed fields and the clock carry the prefix
  \<open>enc\<close>, since the decoder has fields of the same names. \<open>morseSignalString\<close> is the
  buffer of seven characters. \<open>pinLog\<close> stands for the output pin: the values passed to
  \<open>digitalWrite(morseOutPin, _)\<close> so far, the latest first.
\<close>

record morseEncoder =
  morseOutPin :: int
  sendingMorse :: bool
  encodeMorseChar :: char
  enc_wpm :: int
  enc_dotTime :: int
  enc_dashTime :: int
  enc_wordSpace :: int
  morseSignals :: int
  morseSignalPos :: int
  morseSignalString :: "char list"
  sendingMorseSignalNr :: int
  sendMorseTimer :: int
  enc_currentTime :: int
  pinLog :: "bool list"

text \<open>
  The constructor \<open>morseEncoder::morseEncoder(encodePin)\<close>. The fields it leaves unset
  are filled with zeros; \<open>encode\<close> writes each of them before it reads it.
\<close>

definition new_morseEncoder :: "int \<Rightarrow> morseEncoder" where
  "new_morseEncoder encodePin =
     \<lparr> morseOutPin = encodePin,
       sendingMorse = False,
       encodeMorseChar = CHR 0x00,
       enc_wpm = 13,
       enc_dotTime = 1200 div 13,
       enc_dashTime = 3 * 1200 div 13,
       enc_wordSpace = 7 * 1200 div 13,
       morseSignals = 0,
       morseSignalPos = 0,
       morseSignalString = replicate 7 (CHR 0x00),
       sendingMorseSignalNr = 0,
       sendMorseTimer = 0,
       enc_currentTime = 0,
       pinLog = [] \<rparr>"

definition encoder_setspeed :: "int \<Rightarrow> morseEncoder \<Rightarrow> morseEncoder" where
  "encoder_setspeed v e =
     (let w = (if v \<le> 0 then 1 else v)
      in e\<lparr> enc_wpm := w,
            enc_dotTime := 1200 div w,
            enc_dashTime := 3 * 1200 div w,
            enc_wordSpace := 7 * 1200 div w \<rparr>)"

definition encoder_available :: "morseEncoder \<Rightarrow> bool" where
  "encoder_available e = (if sendingMorse e then False else True)"

definition encoder_write :: "char \<Rightarrow> morseEncoder \<Rightarrow> morseEncoder" where
  "encoder_write temp e =
     (if \<not> sendingMorse e \<and> temp \<noteq> CHR ''*'' then e\<lparr> encodeMorseChar := temp \<rparr> else e)"

definition digitalWrite :: "bool \<Rightarrow> morseEncoder \<Rightarrow> morseEncoder" where
  "digitalWrite v e = e\<lparr> pinLog := v # pinLog e \<rparr>"

text \<open>The level of the output pin: low until the first write, then the last value written.\<close>

definition outputLevel :: "morseEncoder \<Rightarrow> bool" where
  "outputLevel e = (case pinLog e of [] \<Rightarrow> False | v # _ \<Rightarrow> v)"

text \<open>
  The value of a \<open>char\<close> in a comparison or in arithmetic: \<open>char\<close> is signed on the AVR
  targets of the library.
\<close>

definition schar :: "char \<Rightarrow> int" where
  "schar c = (if (of_char c :: int) < 128 then of_char c else of_char c - 256)"

text \<open>
  The line \<open>if (encodeMorseChar > 'Z') encodeMorseChar -= 'z'-'Z';\<close>, commented in the
  source as the change to a capital letter.
\<close>

definition to_capital :: "char \<Rightarrow> char" where
  "to_capital c =
     (if schar c > schar CHR ''Z'' then char_of (schar c - (schar CHR ''z'' - schar CHR ''Z''))
      else c)"

text \<open>The scan \<open>for (i=0; i<morseTableLength; i++) if (morseTable[i] == encodeMorseChar) break;\<close>\<close>

function scan_table :: "char \<Rightarrow> int \<Rightarrow> int" where
  "scan_table c i =
     (if i < morseTableLength
      then (if morseTable ! nat i = c then i else scan_table c (i + 1))
      else i)"
  by pat_completeness auto
termination
  by (relation "measure (\<lambda>(c, i). nat (morseTableLength - i))") auto

text \<open>The loop that finds the level of the character in the tree.\<close>

function find_level :: "int \<Rightarrow> nat \<Rightarrow> nat" where
  "find_level morseTablePos i =
     (if i < morseTreeLevels
      then (if (morseTablePos + push_bit i 1) mod (push_bit i 2) = 0 then i
            else find_level morseTablePos (i + 1))
      else i)"
  by pat_completeness auto
termination
  by (relation "measure (\<lambda>(p, i). morseTreeLevels - i)") auto

text \<open>
  The loop that travels the reverse path to the top of the table and writes the signal
  string backwards. The test \<open>test & 0x0001 == 1\<close> of the source parses as
  \<open>test & (0x0001 == 1)\<close>, that is \<open>test & 1\<close>.
\<close>

function trace_path :: "nat \<Rightarrow> int \<Rightarrow> int \<Rightarrow> int \<Rightarrow> char list \<Rightarrow> int \<times> int \<times> char list" where
  "trace_path i signals morseTablePos sigPos str =
     (if i < morseTreeLevels
      then (let add = push_bit i 1;
                test = (morseTablePos + add) div (push_bit i 2)
            in if test AND 1 \<noteq> 0
               then trace_path (i + 1) signals (morseTablePos + add) (sigPos + 1)
                      (str[nat (signals - 1 - sigPos) := CHR ''.''])
               else trace_path (i + 1) signals (morseTablePos - add) (sigPos + 1)
                      (str[nat (signals - 1 - sigPos) := CHR ''-'']))
      else (morseTablePos, sigPos, str))"
  by pat_completeness auto
termination
  by (relation "measure (\<lambda>(i, n, p, k, str). morseTreeLevels - i)") auto

text \<open>The first block of \<open>encode\<close>: a new character is taken and its signals are built.\<close>

definition start_character :: "morseEncoder \<Rightarrow> morseEncoder" where
  "start_character e =
     (let c = to_capital (encodeMorseChar e);
          e1 = e\<lparr> encodeMorseChar := c \<rparr>;
          morseTablePos = scan_table c 0 + 1;
          startLevel = find_level morseTablePos 0;
          e2 = e1\<lparr> morseSignals := int morseTreeLevels - int startLevel, morseSignalPos := 0 \<rparr>;
          e3 = (if morseSignals e2 > 0
                then (case trace_path startLevel (morseSignals e2) morseTablePos 0
                             (morseSignalString e2) of
                        (pos, sigPos, str) \<Rightarrow>
                          e2\<lparr> morseSignalPos := sigPos, morseSignalString := str \<rparr>)
                else e2\<lparr> morseSignalString := (morseSignalString e2)[0 := CHR '' ''],
                         morseSignalPos := 1,
                         morseSignals := 1 \<rparr>);
          e4 = e3\<lparr> morseSignalString :=
                     (morseSignalString e3)[nat (morseSignalPos e3) := CHR 0x00] \<rparr>;
          e5 = e4\<lparr> sendingMorse := True,
                   sendingMorseSignalNr := 0,
                   sendMorseTimer := enc_currentTime e4 \<rparr>
      in if morseSignalString e5 ! 0 \<noteq> CHR '' '' then digitalWrite True e5 else e5)"

text \<open>
  The second block: the \<open>switch\<close> over the current signal, then the test for the end
  of the character.
\<close>

definition switch_signal :: "morseEncoder \<Rightarrow> morseEncoder" where
  "switch_signal e =
     (let sig = morseSignalString e ! nat (sendingMorseSignalNr e)
      in if sig = CHR ''.'' then
           (if enc_currentTime e - sendMorseTimer e \<ge> enc_dotTime e
            then (digitalWrite False e)
                   \<lparr> sendMorseTimer := enc_currentTime e,
                     morseSignalString :=
                       (morseSignalString e)[nat (sendingMorseSignalNr e) := CHR ''x''] \<rparr>
            else e)
         else if sig = CHR ''-'' then
           (if enc_currentTime e - sendMorseTimer e \<ge> enc_dashTime e
            then (digitalWrite False e)
                   \<lparr> sendMorseTimer := enc_currentTime e,
                     morseSignalString :=
                       (morseSignalString e)[nat (sendingMorseSignalNr e) := CHR ''x''] \<rparr>
            else e)
         else if sig = CHR ''x'' then
           (if sendingMorseSignalNr e < morseSignals e - 1
            then (if enc_currentTime e - sendMorseTimer e \<ge> enc_dotTime e
                  then (digitalWrite True (e\<lparr> sendingMorseSignalNr := sendingMorseSignalNr e + 1 \<rparr>))
                         \<lparr> sendMorseTimer := enc_currentTime e \<rparr>
                  else e)
            else (if enc_currentTime e - sendMorseTimer e \<ge> enc_dashTime e
                  then e\<lparr> sendingMorseSignalNr := sendingMorseSignalNr e + 1,
                          sendMorseTimer := enc_currentTime e \<rparr>
                  else e))
         else
           (if enc_currentTime e - sendMorseTimer e > enc_wordSpace e - enc_dashTime e
            then e\<lparr> sendingMorseSignalNr := sendingMorseSignalNr e + 1 \<rparr>
            else e))"

definition send_signal :: "morseEncoder \<Rightarrow> morseEncoder" where
  "send_signal e =
     (let e1 = switch_signal e
      in if sendingMorseSignalNr e1 \<ge> morseSignals e1
         then e1\<lparr> sendingMorse := False, encodeMorseChar := CHR 0x00 \<rparr>
         else e1)"

definition encode :: "int \<Rightarrow> morseEncoder \<Rightarrow> morseEncoder" where
  "encode millis e =
     (let e0 = e\<lparr> enc_currentTime := millis \<rparr>;
          e1 = (if \<not> sendingMorse e0 \<and> encodeMorseChar e0 \<noteq> CHR 0x00
                then start_character e0 else e0)
      in if sendingMorse e1 then send_signal e1 else e1)"

section \<open>The calling loops\<close>

text \<open>
  The sketch drives the decoder from its loop: \<open>morseInput.decode()\<close>, then
  \<open>if (morseInput.available()) cw_rx = morseInput.read();\<close>. A tick carries the three
  readings of one call of \<open>decode\<close>; \<open>poll\<close> runs the loop over a list of ticks and
  collects the characters read.
\<close>

type_synonym tick = "int \<times> bool \<times> int"

definition poll_step :: "morseDecoder \<times> char list \<Rightarrow> tick \<Rightarrow> morseDecoder \<times> char list" where
  "poll_step st tk =
     (case st of (s, out) \<Rightarrow> case tk of (millis, level, sample) \<Rightarrow>
        (let s' = decode millis level sample s
         in if decoder_available s'
            then (case decoder_read s' of (c, s'') \<Rightarrow> (s'', out @ [c]))
            else (s', out)))"

definition poll :: "tick list \<Rightarrow> morseDecoder \<times> char list \<Rightarrow> morseDecoder \<times> char list" where
  "poll ticks st = foldl poll_step st ticks"

text \<open>A run of ticks during which the decoder never takes the signal as present.\<close>

fun signal_stays_off :: "tick list \<Rightarrow> morseDecoder \<Rightarrow> bool" where
  "signal_stays_off [] s = True"
| "signal_stays_off (tk # ticks) s =
     (\<not> morseSignalState (fst (poll_step (s, []) tk))
      \<and> signal_stays_off ticks (fst (poll_step (s, []) tk)))"

text \<open>The public calls of a decoder, and the states reached by a sequence of them.\<close>

datatype decoder_call = Decode int bool int | Setspeed int | Read

fun do_call :: "morseDecoder \<Rightarrow> decoder_call \<Rightarrow> morseDecoder" where
  "do_call s (Decode millis level sample) = decode millis level sample s"
| "do_call s (Setspeed v) = decoder_setspeed v s"
| "do_call s Read = snd (decoder_read s)"

definition run_calls :: "decoder_call list \<Rightarrow> morseDecoder \<Rightarrow> morseDecoder" where
  "run_calls cs s = foldl do_call s cs"

text \<open>The encoder called at a list of clock readings.\<close>

definition encode_ticks :: "int list \<Rightarrow> morseEncoder \<Rightarrow> morseEncoder" where
  "encode_ticks ts e = foldl (\<lambda>e t. encode t e) e ts"

section \<open>Invariants and scenarios\<close>

text \<open>
  The pointer and the jumper of the dichotomic search: the pointer stays in the table, the
  jumper is a power of two or zero, and the pointer plus one is an odd multiple of twice
  the jumper (an odd number when the jumper is zero).
\<close>

definition tree_ok :: "int \<Rightarrow> int \<Rightarrow> bool" where
  "tree_ok j p =
     (0 \<le> p \<and> p \<le> 126 \<and>
      (if j = 0 then odd (p + 1)
       else j \<in> {1, 2, 4, 8, 16, 32} \<and> 2 * j dvd (p + 1) \<and> \<not> 4 * j dvd (p + 1)))"

definition tree_inv :: "morseDecoder \<Rightarrow> bool" where
  "tree_inv s = tree_ok (morseTableJumper s) (morseTablePointer s)"


text \<open>
  The search is consistent, the space of this silence is written, nothing is pending.
\<close>

definition spaced :: "morseDecoder \<Rightarrow> bool" where
  "spaced s = (tree_inv s \<and> morseSpace s \<and> decodedMorseChar s = CHR 0x00)"

text \<open>
  The encoder has made the writes \<open>L\<close> to its pin and is idle with nothing to send or
  with a character that is not in the table, or is sending the word space that stands for
  such a character.
\<close>

definition dropped :: "bool list \<Rightarrow> morseEncoder \<Rightarrow> bool" where
  "dropped L e =
     (pinLog e = L \<and> length (morseSignalString e) = 7 \<and>
      (if sendingMorse e
       then morseSignalString e ! 0 = CHR '' '' \<and> sendingMorseSignalNr e = 0 \<and> morseSignals e = 1
       else encodeMorseChar e = CHR 0x00 \<or> to_capital (encodeMorseChar e) \<notin> set morseTable))"

text \<open>
  A key held from 100 ms to 200 ms at the default speed, seen by three calls of \<open>decode\<close>;
  the next call comes at 1000 ms.
\<close>

definition c2_state :: morseDecoder where
  "c2_state = run_calls [Decode 100 True 0, Decode 130 True 0, Decode 200 False 0]
                (new_morseDecoder 0 False False)"

text \<open>
  An audio decoder set to 901 words per minute that has heard one sample above the
  threshold at 10 ms and reads a silent sample at 11 ms.
\<close>

definition c3_state_a :: morseDecoder where
  "c3_state_a = read_signals False 0
     ((run_calls [Setspeed 901, Decode 10 False 800] (new_morseDecoder 0 True False))
        \<lparr> currentTime := 11 \<rparr>)"

text \<open>A pulse of 137 ms at the default speed, ready to be classified.\<close>

definition c3_state_w :: morseDecoder where
  "c3_state_w = (new_morseDecoder 0 False False)
      \<lparr> gotLastSig := False, markTime := 100, spaceTime := 237, currentTime := 300 \<rparr>"

text \<open>
  The letter \<open>E\<close> keyed at the default speed, decoded at 400 ms and read; the silence
  goes on.
\<close>

definition c6_state :: morseDecoder where
  "c6_state = run_calls [Decode 100 True 0, Decode 130 True 0, Decode 200 False 0,
                         Decode 230 False 0, Decode 250 False 0, Decode 400 False 0, Read]
                (new_morseDecoder 0 False False)"

section \<open>Sending to the decoder\<close>

text \<open>
  Calls of \<open>decode\<close> at every millisecond from \<open>t\<close>, \<open>n\<close> of them, with the key at one level.
\<close>

definition key_ticks :: "int \<Rightarrow> nat \<Rightarrow> bool \<Rightarrow> tick list" where
  "key_ticks t n level = map (\<lambda>i. (t + int i, level, 0)) [0..<n]"

text \<open>
  A decoder that reads a key on a digital pin, active high, with the debounce delay of the
  constructor.
\<close>

definition keyed :: "morseDecoder \<Rightarrow> bool" where
  "keyed s = (\<not> morseAudio s \<and> \<not> activeLow s \<and> debounceDelay s = 20)"

text \<open>
  The states in which calls of \<open>decode\<close> between \<open>t\<close> and \<open>u\<close> with the key at level
  \<open>lv\<close> change nothing but \<open>currentTime\<close>: the level is the one of the last call, it is either
  not yet debounced at \<open>u\<close> or already taken over at \<open>t\<close>, and no write is due up to \<open>u\<close>.
\<close>

definition dec_idle :: "bool \<Rightarrow> int \<Rightarrow> int \<Rightarrow> morseDecoder \<Rightarrow> bool" where
  "dec_idle lv t u s =
     (keyed s \<and> lastKeyerState s = lv \<and> morseKeyer s = lv \<and> decodedMorseChar s = CHR 0x00 \<and>
      (u - lastDebounceTime s \<le> 20
       \<or> (t - lastDebounceTime s > 20 \<and> morseSignalState s = lv
           \<and> (if lv then markTime s else spaceTime s) = lastDebounceTime s)) \<and>
      (if morseSignalState s then \<not> gotLastSig s \<and> \<not> morseSpace s
       else gotLastSig s
            \<and> (morseTableJumper s \<ge> 32 \<or> u - spaceTime s < dotTime s * 2)
            \<and> (morseSpace s \<or> u - spaceTime s \<le> wordSpace s * 2 div 3)))"

text \<open>
  The rise of the key at \<open>T\<close> has been read; it is not debounced yet.
\<close>

definition seen :: "int \<Rightarrow> morseDecoder \<Rightarrow> bool" where
  "seen T s =
     (keyed s \<and> lastKeyerState s \<and> morseKeyer s \<and> \<not> morseSignalState s
      \<and> lastDebounceTime s = T \<and> gotLastSig s \<and> decodedMorseChar s = CHR 0x00
      \<and> (morseTableJumper s \<ge> 32 \<or> T + 20 - spaceTime s < dotTime s * 2)
      \<and> (morseSpace s \<or> T + 20 - spaceTime s \<le> wordSpace s * 2 div 3))"

text \<open>
  The state once the rise at \<open>T\<close> has passed the debounce delay.
\<close>

definition key_down :: "int \<Rightarrow> morseDecoder \<Rightarrow> morseDecoder" where
  "key_down T s = s\<lparr> morseSignalState := True, markTime := T, gotLastSig := False, morseSpace := False \<rparr>"

text \<open>
  The state after the call at \<open>S\<close> that reads the key released: the pulse began at \<open>T\<close>.
\<close>

definition key_up :: "int \<Rightarrow> int \<Rightarrow> morseDecoder \<Rightarrow> morseDecoder" where
  "key_up T S s = s\<lparr> morseKeyer := False, lastKeyerState := False, morseSignalState := True, markTime := T,
     gotLastSig := False, morseSpace := False, lastDebounceTime := S \<rparr>"

text \<open>
  The state once the release at \<open>S\<close> has passed the debounce delay, before the pulse is
  classified.
\<close>

definition off_base :: "int \<Rightarrow> int \<Rightarrow> morseDecoder \<Rightarrow> morseDecoder" where
  "off_base T S s = (key_up T S s)\<lparr> morseSignalState := False, spaceTime := S \<rparr>"

text \<open>
  The step in the tree for a dash or a dot, as \<open>classify_pulse\<close> makes it.
\<close>

definition moved :: "bool \<Rightarrow> morseDecoder \<Rightarrow> morseDecoder" where
  "moved dash b =
     b\<lparr> morseTablePointer := (if dash then morseTablePointer b + morseTableJumper b
                                else morseTablePointer b - morseTableJumper b),
        morseTableJumper := morseTableJumper b div 2,
        gotLastSig := True \<rparr>"

text \<open>
  The search put back to the top of the tree, as \<open>write_character\<close> does.
\<close>

definition at_top_of :: "morseDecoder \<Rightarrow> morseDecoder" where
  "at_top_of b = b\<lparr> morseTableJumper := 32, morseTablePointer := 63 \<rparr>"

text \<open>
  The state and the characters read at the call at \<open>x\<close> during the silence that began at
  \<open>S\<close>, in three stages: pulse not yet classified, pulse classified, character written and
  read.
\<close>

definition silence :: "bool \<Rightarrow> int \<Rightarrow> morseDecoder \<Rightarrow> char list \<Rightarrow> int \<Rightarrow> morseDecoder \<times> char list" where
  "silence dash S b out x =
     (if x - S \<le> dotTime b div 2 then (b\<lparr> currentTime := x \<rparr>, out)
      else if x - S < dotTime b * 2 then ((moved dash b)\<lparr> currentTime := x \<rparr>, out)
      else ((at_top_of (moved dash b))\<lparr> currentTime := x \<rparr>,
            out @ [morseTable ! nat (morseTablePointer (moved dash b))]))"

text \<open>
  The key is up since \<open>S\<close>, debounced, and no space is written for this silence.
\<close>

definition off_state :: "int \<Rightarrow> morseDecoder \<Rightarrow> bool" where
  "off_state S q =
     (keyed q \<and> \<not> lastKeyerState q \<and> \<not> morseKeyer q \<and> \<not> morseSignalState q
      \<and> lastDebounceTime q = S \<and> spaceTime q = S \<and> decodedMorseChar q = CHR 0x00
      \<and> \<not> morseSpace q \<and> 1 \<le> dotTime q)"

text \<open>
  The pulse that ended at \<open>S\<close> is not yet classified and its length makes it a dash or a
  dot.
\<close>

definition pending :: "bool \<Rightarrow> int \<Rightarrow> morseDecoder \<Rightarrow> bool" where
  "pending dash S b =
     (off_state S b \<and> \<not> gotLastSig b \<and> 0 < morseTableJumper b \<and> tree_inv b
      \<and> dotTime b div 4 < S - markTime b
      \<and> (if dash then \<not> S - markTime b < dashTime b div 2 \<and> S - markTime b < dashTime b + dotTime b
          else S - markTime b < dashTime b div 2))"

text \<open>
  One turn of a loop that calls \<open>encode\<close>, then \<open>decode\<close> on a pin wired to the output
  pin of the encoder, then \<open>read\<close> if a character is available.
\<close>

definition loop_step :: "int \<Rightarrow> morseEncoder \<times> morseDecoder \<times> char list \<Rightarrow> morseEncoder \<times> morseDecoder \<times> char list" where
  "loop_step t st =
     (case st of (e, s, out) \<Rightarrow>
        (let e' = encode t e
         in case poll_step (s, out) (t, outputLevel e', 0) of (s', out') \<Rightarrow> (e', s', out')))"

text \<open>
  The loop runs once per millisecond until the encoder is available again, and returns
  the characters read from the decoder; \<open>None\<close> when it has not ended after \<open>n\<close> turns.
\<close>

fun send_and_receive :: "nat \<Rightarrow> int \<Rightarrow> morseEncoder \<times> morseDecoder \<times> char list \<Rightarrow> char list option" where
  "send_and_receive 0 t st = None"
| "send_and_receive (Suc n) t st =
     (case loop_step t st of (e, s, out) \<Rightarrow>
        if encoder_available e then Some out
        else send_and_receive n (t + 1) (e, s, out))"

text \<open>
  The encoder is within a signal or a pause that lasts beyond the time \<open>u\<close>.
\<close>

definition enc_wait :: "int \<Rightarrow> morseEncoder \<Rightarrow> bool" where
  "enc_wait u e =
     (sendingMorse e \<and> sendingMorseSignalNr e < morseSignals e \<and>
      (if morseSignalString e ! nat (sendingMorseSignalNr e) = CHR ''.''
         then u - sendMorseTimer e < enc_dotTime e
       else if morseSignalString e ! nat (sendingMorseSignalNr e) = CHR ''-''
         then u - sendMorseTimer e < enc_dashTime e
       else morseSignalString e ! nat (sendingMorseSignalNr e) = CHR ''x''
            \<and> (if sendingMorseSignalNr e < morseSignals e - 1
                then u - sendMorseTimer e < enc_dotTime e
                else u - sendMorseTimer e < enc_dashTime e)))"

text \<open>
  The encoder has the signals \<open>syms\<close> to send and began signal \<open>k\<close> at \<open>T\<close>; the pin is
  high.
\<close>

definition sending_at :: "char list \<Rightarrow> nat \<Rightarrow> int \<Rightarrow> morseEncoder \<Rightarrow> bool" where
  "sending_at syms k T e =
     (sendingMorse e \<and> morseSignals e = int (length syms) \<and> sendingMorseSignalNr e = int k
      \<and> sendMorseTimer e = T \<and> outputLevel e \<and> k < length syms
      \<and> length syms < length (morseSignalString e)
      \<and> drop k (take (length syms) (morseSignalString e)) = drop k syms
      \<and> set syms \<subseteq> {CHR ''.'', CHR ''-''})"

text \<open>
  The duration of a signal.
\<close>

definition dur :: "morseEncoder \<Rightarrow> char \<Rightarrow> int" where
  "dur e c = (if c = CHR ''.'' then enc_dotTime e else enc_dashTime e)"

text \<open>
  The encoder states after the end of a signal, the start of the next one, and the end of
  the character, as \<open>switch_signal\<close> and \<open>send_signal\<close> make them.
\<close>

definition enc_fall :: "int \<Rightarrow> morseEncoder \<Rightarrow> morseEncoder" where
  "enc_fall x e =
     e\<lparr> enc_currentTime := x, pinLog := False # pinLog e, sendMorseTimer := x,
        morseSignalString := (morseSignalString e)[nat (sendingMorseSignalNr e) := CHR ''x''] \<rparr>"

definition enc_rise :: "int \<Rightarrow> morseEncoder \<Rightarrow> morseEncoder" where
  "enc_rise x e =
     e\<lparr> enc_currentTime := x, sendingMorseSignalNr := sendingMorseSignalNr e + 1,
        pinLog := True # pinLog e, sendMorseTimer := x \<rparr>"

definition enc_done :: "int \<Rightarrow> morseEncoder \<Rightarrow> morseEncoder" where
  "enc_done x e =
     e\<lparr> enc_currentTime := x, sendingMorseSignalNr := sendingMorseSignalNr e + 1,
        sendMorseTimer := x, sendingMorse := False, encodeMorseChar := CHR 0x00 \<rparr>"

text \<open>
  The key is up and calls of \<open>decode\<close> up to \<open>T + 20\<close> write nothing.
\<close>

definition resting :: "int \<Rightarrow> morseDecoder \<Rightarrow> bool" where
  "resting T q =
     (keyed q \<and> \<not> lastKeyerState q \<and> \<not> morseSignalState q \<and> gotLastSig q
      \<and> decodedMorseChar q = CHR 0x00
      \<and> (morseTableJumper q \<ge> 32 \<or> T + 20 - spaceTime q < dotTime q * 2)
      \<and> (morseSpace q \<or> T + 20 - spaceTime q \<le> wordSpace q * 2 div 3))"

text \<open>
  The state after the call at \<open>T\<close> that reads the key pressed.
\<close>

definition rise :: "int \<Rightarrow> morseDecoder \<Rightarrow> morseDecoder" where
  "rise T q = q\<lparr> currentTime := T, morseKeyer := True, lastKeyerState := True, lastDebounceTime := T \<rparr>"

text \<open>
  Durations as \<open>setspeed\<close> gives them for speeds up to 54 words per minute: a dot outlasts
  the debounce delay.
\<close>

definition timing :: "morseDecoder \<Rightarrow> bool" where
  "timing s = (22 \<le> dotTime s \<and> 3 * dotTime s \<le> dashTime s \<and> dashTime s \<le> 3 * dotTime s + 2
               \<and> 7 * dotTime s \<le> wordSpace s)"

text \<open>
  The path through the tree for a list of signals, from jumper \<open>j\<close> and pointer \<open>p\<close>.
\<close>

fun walk :: "int \<Rightarrow> int \<Rightarrow> char list \<Rightarrow> int" where
  "walk j p [] = p"
| "walk j p (c # cs) = walk (j div 2) (if c = CHR ''-'' then p + j else p - j) cs"

text \<open>
  The time the encoder takes for a list of signals: a dot time between two signals, a dash
  time after the last.
\<close>

fun ticks_left :: "int \<Rightarrow> int \<Rightarrow> char list \<Rightarrow> int" where
  "ticks_left d D [] = 0"
| "ticks_left d D [c] = (if c = CHR ''-'' then D else d) + D"
| "ticks_left d D (c # cs) = (if c = CHR ''-'' then D else d) + d + ticks_left d D cs"

text \<open>
  For a position of the table (counted from 1), \<open>find_level\<close> and \<open>trace_path\<close> build a
  string of dots and dashes whose path from the top of the tree ends at that position.
\<close>

definition pos_ok :: "int \<Rightarrow> bool" where
  "pos_ok pos =
     (let lvl = find_level pos 0; n = int morseTreeLevels - int lvl
      in 0 < n \<and>
         (case trace_path lvl n pos 0 (replicate 7 (CHR 0x00)) of
            (p, sigPos, str) \<Rightarrow>
              sigPos = n \<and> length str = 7
              \<and> list_all (\<lambda>x. x = CHR ''.'' \<or> x = CHR ''-'') (take (nat n) str)
              \<and> walk 32 63 (take (nat n) str) = pos - 1))"

text \<open>
  The signals that \<open>start_character\<close> builds for a character.
\<close>

definition signals_of :: "char \<Rightarrow> char list" where
  "signals_of c =
     (let pos = scan_table c 0 + 1; lvl = find_level pos 0;
          n = int morseTreeLevels - int lvl
      in case trace_path lvl n pos 0 (replicate 7 (CHR 0x00)) of
           (p, sigPos, str) \<Rightarrow> take (nat n) str)"

text \<open>
  A number of turns that suffices for any character at the speed \<open>v\<close>.
\<close>

definition enough_ticks :: "int \<Rightarrow> nat" where
  "enough_ticks v =
     nat (7 * (3600 div (if v \<le> 0 then 1 else v)) + 5 * (1200 div (if v \<le> 0 then 1 else v))) + 1"

text \<open>
  A character is written to a new encoder, and the loop runs from the time \<open>t0\<close> with a
  new decoder on the same wire, both set to the speed \<open>v\<close>.
\<close>

definition roundtrip :: "int \<Rightarrow> char \<Rightarrow> int \<Rightarrow> nat \<Rightarrow> char list option" where
  "roundtrip v c t0 n =
     send_and_receive n t0
       (encoder_write c (encoder_setspeed v (new_morseEncoder 0)),
        decoder_setspeed v (new_morseDecoder 0 False False), [])"


text \<open>
  Dots keyed at the default speed from the time \<open>T\<close>, 92 ms on and 92 ms off, each seen by
  four calls of \<open>decode\<close>: two while the key is down, two after its release.
\<close>

fun dots :: "nat \<Rightarrow> int \<Rightarrow> tick list" where
  "dots 0 T = []"
| "dots (Suc n) T =
     [(T, True, 0), (T + 21, True, 0), (T + 92, False, 0), (T + 139, False, 0)]
     @ dots n (T + 184)"


section \<open>Auxiliary facts\<close>

lemmas decode_defs = decode_def read_signals_def read_keyer_def read_audio_def classify_pulse_def
  write_character_def write_space_def Let_def morseTreetop_def

lemmas setup_defs = run_calls_def new_morseDecoder_def decoder_setspeed_def

lemma tree_ok_top: "tree_ok ((morseTreetop + 1) div 2) morseTreetop"
  by (simp add: tree_ok_def morseTreetop_def)

lemma tree_ok_move:
  assumes "tree_ok j p" and "j > 0"
  shows "tree_ok (j div 2) (p - j)" and "tree_ok (j div 2) (p + j)"
proof -
  from assms have j: "j \<in> {1, 2, 4, 8, 16, 32}" and d: "2 * j dvd (p + 1)"
    and r: "0 \<le> p" "p \<le> 126"
    by (auto simp: tree_ok_def split: if_splits)
  from d obtain q where q: "p + 1 = 2 * j * q" by (auto simp: dvd_def)
  have lo: "p - j + 1 = j * (2 * q - 1)" and hi: "p + j + 1 = j * (2 * q + 1)"
    using q by (simp_all add: algebra_simps)
  from j q r have b: "0 \<le> p - j \<and> p + j \<le> 126"
    by (elim insertE emptyE) (simp_all, presburger+)
  from j have "j = 1 \<or> (j div 2 \<in> {1, 2, 4, 8, 16, 32} \<and> 2 * (j div 2) = j \<and> j \<noteq> 0)"
    by auto
  then have "tree_ok (j div 2) (p - j) \<and> tree_ok (j div 2) (p + j)"
  proof
    assume "j = 1"
    with b lo hi r show ?thesis by (simp add: tree_ok_def)
  next
    assume e: "j div 2 \<in> {1, 2, 4, 8, 16, 32} \<and> 2 * (j div 2) = j \<and> j \<noteq> 0"
    then have f: "4 * (j div 2) = j * 2" by simp
    have "j dvd (p - j + 1)" "j dvd (p + j + 1)" using lo hi by simp_all
    moreover have "\<not> j * 2 dvd (p - j + 1)" "\<not> j * 2 dvd (p + j + 1)"
      using e unfolding lo hi by simp_all
    ultimately show ?thesis using e b f r j unfolding tree_ok_def by auto
  qed
  then show "tree_ok (j div 2) (p - j)" and "tree_ok (j div 2) (p + j)" by simp_all
qed

lemma read_keyer_keeps:
  "gotLastSig (read_keyer l s) = gotLastSig s"
  "morseTableJumper (read_keyer l s) = morseTableJumper s"
  "morseTablePointer (read_keyer l s) = morseTablePointer s"
  "decodedMorseChar (read_keyer l s) = decodedMorseChar s"
  "morseSpace (read_keyer l s) = morseSpace s"
  "currentTime (read_keyer l s) = currentTime s"
  by (simp_all add: read_keyer_def Let_def)

lemma read_audio_keeps:
  "gotLastSig (read_audio a s) = gotLastSig s"
  "morseTableJumper (read_audio a s) = morseTableJumper s"
  "morseTablePointer (read_audio a s) = morseTablePointer s"
  "decodedMorseChar (read_audio a s) = decodedMorseChar s"
  "morseSpace (read_audio a s) = morseSpace s"
  "currentTime (read_audio a s) = currentTime s"
  by (simp_all add: read_audio_def Let_def)

lemma read_signals_keeps:
  "gotLastSig (read_signals l a s) = gotLastSig s"
  "morseTableJumper (read_signals l a s) = morseTableJumper s"
  "morseTablePointer (read_signals l a s) = morseTablePointer s"
  "decodedMorseChar (read_signals l a s) = decodedMorseChar s"
  "morseSpace (read_signals l a s) = morseSpace s"
  "currentTime (read_signals l a s) = currentTime s"
  by (simp_all add: read_signals_def read_keyer_keeps read_audio_keeps)

lemma classify_pulse_keeps:
  "morseSignalState (classify_pulse s) = morseSignalState s"
  "morseKeyer (classify_pulse s) = morseKeyer s"
  "morseSpace (classify_pulse s) = morseSpace s"
  "currentTime (classify_pulse s) = currentTime s"
  "spaceTime (classify_pulse s) = spaceTime s"
  "dotTime (classify_pulse s) = dotTime s"
  "wordSpace (classify_pulse s) = wordSpace s"
  by (simp_all add: classify_pulse_def)

lemma write_character_keeps:
  "morseSignalState (write_character s) = morseSignalState s"
  "morseKeyer (write_character s) = morseKeyer s"
  "morseSpace (write_character s) = morseSpace s"
  "gotLastSig (write_character s) = gotLastSig s"
  "currentTime (write_character s) = currentTime s"
  "spaceTime (write_character s) = spaceTime s"
  "wordSpace (write_character s) = wordSpace s"
  by (simp_all add: write_character_def)

lemma write_space_keeps:
  "morseSignalState (write_space s) = morseSignalState s"
  "morseKeyer (write_space s) = morseKeyer s"
  "gotLastSig (write_space s) = gotLastSig s"
  "morseTableJumper (write_space s) = morseTableJumper s"
  "morseTablePointer (write_space s) = morseTablePointer s"
  by (simp_all add: write_space_def)

lemma decode_signal_state:
  "morseSignalState (decode t l a s) = morseSignalState (read_signals l a (s\<lparr> currentTime := t \<rparr>))"
  by (simp add: decode_def Let_def classify_pulse_keeps write_character_keeps write_space_keeps)

lemma decode_signal_off:
  assumes "\<not> morseSignalState (decode t l a s)"
  shows "decode t l a s =
     (write_space (write_character (classify_pulse (read_signals l a (s\<lparr> currentTime := t \<rparr>)))))
       \<lparr> lastKeyerState :=
           morseKeyer (write_space (write_character (classify_pulse (read_signals l a (s\<lparr> currentTime := t \<rparr>))))) \<rparr>"
  using assms unfolding decode_signal_state by (simp add: decode_def Let_def)

lemma poll_step_signal_state:
  "morseSignalState (fst (poll_step (s, out) (t, l, a))) = morseSignalState (decode t l a s)"
  by (simp add: poll_step_def Let_def decoder_read_def)



lemma times_div_le:
  fixes a w k :: int
  assumes "0 < w" "0 \<le> k" "0 \<le> a"
  shows "k * (a div w) \<le> (k * a) div w"
proof -
  have "k * a = k * (a mod w) + (k * (a div w)) * w"
    using mult_div_mod_eq [of w a] by (metis add.commute distrib_left mult.assoc mult.commute)
  then have "(k * a) div w = (k * (a mod w) + (k * (a div w)) * w) div w" by simp
  also have "\<dots> = k * (a div w) + (k * (a mod w)) div w"
    using assms(1) by (simp only: div_mult_self1) 
  finally have "(k * a) div w = k * (a div w) + (k * (a mod w)) div w" .
  moreover have "0 \<le> (k * (a mod w)) div w"
    using assms by (simp add: pos_imp_zdiv_nonneg_iff)
  ultimately show ?thesis by simp
qed

lemma speed_bounds:
  fixes w :: int
  assumes "1 \<le> w" "w \<le> 900"
  shows "1 \<le> 1200 div w" "4 \<le> 3600 div w" "3 * (1200 div w) \<le> 3600 div w"
proof -
  from assms have "1200 div 900 \<le> 1200 div w"
    by (intro zdiv_mono2) simp_all
  then show "1 \<le> 1200 div w" by simp
  from assms have "3600 div 900 \<le> 3600 div w"
    by (intro zdiv_mono2) simp_all
  then show "4 \<le> 3600 div w" by simp
  show "3 * (1200 div w) \<le> 3600 div w"
    using times_div_le [of w 3 1200] assms by simp
qed

lemma length_morseTable: "length morseTable = 127"
  by (simp add: morseTable_def)

lemma nth31: "morseTable ! 31 = CHR ''E''"
  by (simp add: morseTable_def)

lemma c2_state_eq: "c2_state = (new_morseDecoder 0 False False)\<lparr> currentTime := 200, morseKeyer := False, lastKeyerState := False,
    morseSignalState := True, gotLastSig := False, morseSpace := False, lastDebounceTime := 200, markTime := 100 \<rparr>"
  by (simp add: c2_state_def run_calls_def decode_defs new_morseDecoder_def)

declare scan_table.simps [simp del] find_level.simps [simp del] trace_path.simps [simp del]

subsection \<open>The tree invariant\<close>

lemma tree_inv_new: "tree_inv (new_morseDecoder p a l)"
  using tree_ok_top by (simp add: tree_inv_def new_morseDecoder_def)

lemma tree_inv_classify_pulse: "tree_inv s \<Longrightarrow> tree_inv (classify_pulse s)"
  unfolding classify_pulse_def tree_inv_def
  by (simp add: tree_ok_move tree_ok_top)

lemma tree_inv_write_character: "tree_inv s \<Longrightarrow> tree_inv (write_character s)"
  unfolding write_character_def tree_inv_def by (simp add: tree_ok_top)

lemma tree_inv_write_space: "tree_inv s \<Longrightarrow> tree_inv (write_space s)"
  unfolding write_space_def tree_inv_def by simp

lemma tree_inv_decode:
  assumes "tree_inv s"
  shows "tree_inv (decode t p a s)"
proof -
  let ?s1 = "read_signals p a (s\<lparr> currentTime := t \<rparr>)"
  let ?s2 = "if \<not> morseSignalState ?s1
             then write_space (write_character (classify_pulse ?s1))
             else ?s1\<lparr> gotLastSig := False, morseSpace := False \<rparr>"
  have 1: "tree_inv ?s1"
    using assms by (simp add: tree_inv_def read_signals_keeps)
  have 2: "tree_inv ?s2"
  proof (cases "morseSignalState ?s1")
    case True
    with 1 show ?thesis by (simp add: tree_inv_def)
  next
    case False
    with 1 show ?thesis
      by (simp add: tree_inv_write_space tree_inv_write_character tree_inv_classify_pulse)
  qed
  have "decode t p a s = ?s2\<lparr> lastKeyerState := morseKeyer ?s2 \<rparr>"
    by (simp add: decode_def Let_def)
  with 2 show ?thesis by (simp add: tree_inv_def)
qed

lemma tree_inv_setspeed: "tree_inv (decoder_setspeed v s) = tree_inv s"
  by (simp add: tree_inv_def decoder_setspeed_def Let_def)

lemma tree_inv_read: "tree_inv (snd (decoder_read s)) = tree_inv s"
  by (simp add: tree_inv_def decoder_read_def Let_def)

lemma tree_inv_do_call: "tree_inv s \<Longrightarrow> tree_inv (do_call s c)"
  by (cases c) (simp_all add: tree_inv_decode tree_inv_setspeed tree_inv_read)

lemma tree_inv_run_calls: "tree_inv s \<Longrightarrow> tree_inv (run_calls cs s)"
  unfolding run_calls_def
  by (induction cs arbitrary: s) (simp_all add: tree_inv_do_call)

lemma tree_inv_bounds:
  "tree_inv s \<Longrightarrow> 0 \<le> morseTablePointer s \<and> morseTablePointer s \<le> 126 \<and> morseTableJumper s \<in> {32, 16, 8, 4, 2, 1, 0}"
  by (auto simp: tree_inv_def tree_ok_def split: if_splits)

subsection \<open>Spaces\<close>

lemma table_space_only_at_top:
  assumes "i < 127" "i \<noteq> 63"
  shows "morseTable ! i \<noteq> CHR '' ''"
proof -
  have n: "CHR '' '' \<notin> set (take 63 morseTable)" "CHR '' '' \<notin> set (drop 64 morseTable)"
    by (simp_all add: morseTable_def)
  show ?thesis
  proof (cases "i < 63")
    case True
    then have "morseTable ! i = take 63 morseTable ! i" by simp
    moreover have "take 63 morseTable ! i \<in> set (take 63 morseTable)"
      using True by (intro nth_mem) (simp add: length_morseTable)
    ultimately show ?thesis using n(1) by metis
  next
    case False
    with assms have i: "64 \<le> i" by simp
    then have "morseTable ! i = drop 64 morseTable ! (i - 64)"
      using assms(1) by (simp add: length_morseTable)
    moreover have "drop 64 morseTable ! (i - 64) \<in> set (drop 64 morseTable)"
      using i assms(1) by (intro nth_mem) (simp add: length_morseTable)
    ultimately show ?thesis using n(2) by metis
  qed
qed

lemma letter_not_space:
  assumes "tree_inv s" and "morseTableJumper s < (morseTreetop + 1) div 2"
  shows "morseTable ! nat (morseTablePointer s) \<noteq> CHR '' ''"
proof -
  from assms have r: "0 \<le> morseTablePointer s" "morseTablePointer s \<le> 126"
    by (simp_all add: tree_inv_def tree_ok_def)
  have "morseTablePointer s \<noteq> 63"
  proof
    assume e: "morseTablePointer s = 63"
    show False
    proof (cases "morseTableJumper s = 0")
      case True
      with assms(1) e show False by (simp add: tree_inv_def tree_ok_def)
    next
      case False
      with assms have "morseTableJumper s \<in> {1, 2, 4, 8, 16}"
        and "\<not> 4 * morseTableJumper s dvd 64"
        using e by (auto simp: tree_inv_def tree_ok_def morseTreetop_def)
      then show False by auto
    qed
  qed
  with r have "nat (morseTablePointer s) < 127" "nat (morseTablePointer s) \<noteq> 63" by auto
  then show ?thesis by (rule table_space_only_at_top)
qed

lemma classify_pulse_char:
  "decodedMorseChar (classify_pulse s) = decodedMorseChar s \<or> decodedMorseChar (classify_pulse s) = CHR ''#''"
  by (simp add: classify_pulse_def)

lemma write_character_char:
  assumes "tree_inv s"
  shows "decodedMorseChar (write_character s) = decodedMorseChar s \<or> decodedMorseChar (write_character s) \<noteq> CHR '' ''"
  using letter_not_space [OF assms] by (simp add: write_character_def)

lemma write_space_id: "morseSpace s \<Longrightarrow> write_space s = s"
  by (simp add: write_space_def)

lemma tree_inv_upd [simp]:
  "tree_inv (s\<lparr> currentTime := t \<rparr>) = tree_inv s"
  "tree_inv (s\<lparr> lastKeyerState := k \<rparr>) = tree_inv s"
  "tree_inv (s\<lparr> decodedMorseChar := c \<rparr>) = tree_inv s"
  by (simp_all add: tree_inv_def)

lemma poll_step_spaced:
  assumes "spaced s" and "\<not> morseSignalState (fst (poll_step (s, []) tk))"
  shows "spaced (fst (poll_step (s, out) tk)) \<and>
         (\<exists>cs. snd (poll_step (s, out) tk) = out @ cs \<and> CHR '' '' \<notin> set cs)"
proof -
  obtain t l a where tk: "tk = (t, l, a)" by (cases tk)
  let ?s1 = "read_signals l a (s\<lparr> currentTime := t \<rparr>)"
  let ?s2 = "classify_pulse ?s1"
  let ?s3 = "write_character ?s2"
  from assms(2) have off: "\<not> morseSignalState (decode t l a s)"
    by (simp add: tk poll_step_signal_state)
  have s1: "tree_inv ?s1" "morseSpace ?s1" "decodedMorseChar ?s1 = CHR 0x00"
    using assms(1) by (simp_all add: spaced_def tree_inv_def read_signals_keeps)
  have s2: "tree_inv ?s2" "morseSpace ?s2" "decodedMorseChar ?s2 \<noteq> CHR '' ''"
    using s1 classify_pulse_char [of ?s1]
    by (auto simp: tree_inv_classify_pulse classify_pulse_keeps)
  have s3: "tree_inv ?s3" "morseSpace ?s3" "decodedMorseChar ?s3 \<noteq> CHR '' ''"
    using s2 write_character_char [OF s2(1)]
    by (auto simp: tree_inv_write_character write_character_keeps)
  have d: "decode t l a s = ?s3\<lparr> lastKeyerState := morseKeyer ?s3 \<rparr>"
    unfolding decode_signal_off [OF off] using s3(2) by (simp add: write_space_id)
  show ?thesis
    using s3
    by (simp add: tk poll_step_def d spaced_def decoder_available_def decoder_read_def Let_def)
qed

lemma poll_spaced:
  assumes "spaced s" and "signal_stays_off ticks s"
  shows "\<exists>cs. snd (poll ticks (s, out)) = out @ cs \<and> CHR '' '' \<notin> set cs"
  using assms
proof (induction ticks arbitrary: s out)
  case Nil
  then show ?case by (simp add: poll_def)
next
  case (Cons tk ticks)
  let ?st = "poll_step (s, out) tk"
  have fst_eq: "fst (poll_step (s, []) tk) = fst ?st"
    by (cases tk) (simp add: poll_step_def Let_def decoder_read_def split: prod.splits)
  from Cons.prems have off: "\<not> morseSignalState (fst (poll_step (s, []) tk))"
    and rest: "signal_stays_off ticks (fst (poll_step (s, []) tk))" by simp_all
  from poll_step_spaced [OF Cons.prems(1) off, of out]
  obtain cs where sp: "spaced (fst ?st)" and o: "snd ?st = out @ cs" "CHR '' '' \<notin> set cs" by auto
  from Cons.IH [OF sp, of "snd ?st"] rest fst_eq
  obtain cs' where "snd (poll ticks ?st) = snd ?st @ cs'" "CHR '' '' \<notin> set cs'"
    by auto
  with o show ?case
    by (auto simp: poll_def)
qed

subsection \<open>Characters that are not in the table\<close>

lemma scan_table_absent:
  "c \<notin> set morseTable \<Longrightarrow>
   scan_table c i = (if i < morseTableLength then morseTableLength else i)"
proof (induction c i rule: scan_table.induct)
  case (1 c i)
  show ?case
  proof (cases "i < morseTableLength")
    case False
    then show ?thesis by (subst scan_table.simps) simp
  next
    case True
    then have "nat i < length morseTable"
      by (simp add: length_morseTable morseTableLength_def morseTreetop_def)
    then have "morseTable ! nat i \<in> set morseTable" by (rule nth_mem)
    with "1.prems" have ne: "morseTable ! nat i \<noteq> c" by auto
    from "1.IH" [OF True ne "1.prems"]
    have "scan_table c (i + 1) = (if i + 1 < morseTableLength then morseTableLength else i + 1)" .
    with True ne show ?thesis by (subst scan_table.simps) auto
  qed
qed

lemma find_level_128: "find_level 128 0 = 6"
  by (simp add: find_level.simps morseTreeLevels_def)

lemma start_character_absent:
  assumes "to_capital (encodeMorseChar e) \<notin> set morseTable"
    and "length (morseSignalString e) = 7"
  shows "sendingMorse (start_character e) \<and>
         morseSignalString (start_character e) ! 0 = CHR '' '' \<and>
         sendingMorseSignalNr (start_character e) = 0 \<and>
         morseSignals (start_character e) = 1 \<and>
         length (morseSignalString (start_character e)) = 7 \<and>
         pinLog (start_character e) = pinLog e"
proof -
  have p: "scan_table (to_capital (encodeMorseChar e)) 0 + 1 = 128"
    using scan_table_absent [OF assms(1), of 0]
    by (simp add: morseTableLength_def morseTreetop_def)
  show ?thesis
    unfolding start_character_def Let_def p find_level_128
    using assms(2) by (simp add: morseTreeLevels_def digitalWrite_def)
qed

lemma send_signal_dropped:
  assumes "dropped L e" and "sendingMorse e"
  shows "dropped L (send_signal e)"
  using assms by (simp add: dropped_def send_signal_def switch_signal_def Let_def)

lemma encode_dropped:
  assumes "dropped L e"
  shows "dropped L (encode t e)"
proof -
  let ?e0 = "e\<lparr> enc_currentTime := t \<rparr>"
  have d0: "dropped L ?e0" using assms by (simp add: dropped_def)
  show ?thesis
  proof (cases "\<not> sendingMorse ?e0 \<and> encodeMorseChar ?e0 \<noteq> CHR 0x00")
    case True
    with d0 have a: "to_capital (encodeMorseChar ?e0) \<notin> set morseTable"
      and l: "length (morseSignalString ?e0) = 7" and pl: "pinLog ?e0 = L"
      by (auto simp: dropped_def)
    from start_character_absent [OF a l] pl
    have d1: "dropped L (start_character ?e0)" and s1: "sendingMorse (start_character ?e0)"
      by (simp_all add: dropped_def)
    have "encode t e = send_signal (start_character ?e0)"
      using True s1 by (simp add: encode_def Let_def)
    with send_signal_dropped [OF d1 s1] show ?thesis by simp
  next
    case False
    then have "encode t e = (if sendingMorse ?e0 then send_signal ?e0 else ?e0)"
      by (auto simp: encode_def Let_def)
    with d0 send_signal_dropped [OF d0] show ?thesis by auto
  qed
qed

lemma encode_ticks_dropped: "dropped L e \<Longrightarrow> dropped L (encode_ticks ts e)"
  unfolding encode_ticks_def
  by (induction ts arbitrary: e) (simp_all add: encode_dropped)

section \<open>A character sent by the encoder is the character decoded\<close>

lemma decode_ct [simp]: "decode t lv a (s\<lparr> currentTime := x \<rparr>) = decode t lv a s"
  by (simp add: decode_def)

lemma poll_step_ct [simp]: "poll_step (s\<lparr> currentTime := x \<rparr>, out) tk = poll_step (s, out) tk"
  by (simp add: poll_step_def split: prod.splits)

lemma dec_idle_ct [simp]: "dec_idle lv t u (s\<lparr> currentTime := x \<rparr>) = dec_idle lv t u s"
  by (simp add: dec_idle_def keyed_def)

lemma same_update:
  "morseKeyer s = k \<Longrightarrow> s\<lparr> morseKeyer := k \<rparr> = s"
  "lastKeyerState s = k \<Longrightarrow> s\<lparr> lastKeyerState := k \<rparr> = s"
  "morseSignalState s = k \<Longrightarrow> s\<lparr> morseSignalState := k \<rparr> = s"
  "gotLastSig s = k \<Longrightarrow> s\<lparr> gotLastSig := k \<rparr> = s"
  "morseSpace s = k \<Longrightarrow> s\<lparr> morseSpace := k \<rparr> = s"
  "markTime s = m \<Longrightarrow> s\<lparr> markTime := m \<rparr> = s"
  "spaceTime s = m \<Longrightarrow> s\<lparr> spaceTime := m \<rparr> = s"
  by (cases s; simp)+

lemma read_keyer_idle:
  assumes "dec_idle lv t u s" and "t \<le> x" and "x \<le> u"
  shows "read_keyer lv (s\<lparr> currentTime := x \<rparr>) = s\<lparr> currentTime := x \<rparr>"
proof -
  from assms(1) have k: "\<not> activeLow s" "debounceDelay s = 20" "lastKeyerState s = lv" "morseKeyer s = lv"
    by (simp_all add: dec_idle_def keyed_def)
  from assms(1) consider
      (within) "u - lastDebounceTime s \<le> 20"
    | (past) "t - lastDebounceTime s > 20" "morseSignalState s = lv"
        "(if lv then markTime s else spaceTime s) = lastDebounceTime s"
    by (auto simp: dec_idle_def)
  then show ?thesis
  proof cases
    case within
    with assms(3) have "\<not> x - lastDebounceTime s > 20" by simp
    with k show ?thesis by (simp add: read_keyer_def Let_def same_update)
  next
    case past
    with assms(2) have "x - lastDebounceTime s > 20" by simp
    with k past(2,3) show ?thesis
      by (cases lv) (simp_all add: read_keyer_def Let_def same_update)
  qed
qed

lemma decode_on:
  assumes "morseSignalState (read_signals lv a (s\<lparr> currentTime := t \<rparr>))"
  shows "decode t lv a s =
     (read_signals lv a (s\<lparr> currentTime := t \<rparr>))
       \<lparr> gotLastSig := False, morseSpace := False,
         lastKeyerState := morseKeyer (read_signals lv a (s\<lparr> currentTime := t \<rparr>)) \<rparr>"
  using assms by (simp add: decode_def Let_def)

lemma decode_off:
  assumes "\<not> morseSignalState (read_signals lv a (s\<lparr> currentTime := t \<rparr>))"
  shows "decode t lv a s =
     (write_space (write_character (classify_pulse (read_signals lv a (s\<lparr> currentTime := t \<rparr>)))))
       \<lparr> lastKeyerState :=
           morseKeyer (read_signals lv a (s\<lparr> currentTime := t \<rparr>)) \<rparr>"
  using assms by (simp add: decode_def Let_def write_space_keeps write_character_keeps classify_pulse_keeps)

lemma write_character_quiet:
  assumes "\<not> (currentTime s - spaceTime s \<ge> dotTime s * 2
              \<and> morseTableJumper s < (morseTreetop + 1) div 2)"
  shows "write_character s = s"
  unfolding write_character_def using assms by (rule if_not_P)

lemma write_space_quiet:
  assumes "\<not> (currentTime s - spaceTime s > wordSpace s * 2 div 3 \<and> morseSpace s = False)"
  shows "write_space s = s"
  unfolding write_space_def using assms by (rule if_not_P)

lemma dec_idle_decode:
  assumes "dec_idle lv t u s" and "t \<le> x" and "x \<le> u"
  shows "decode x lv a s = s\<lparr> currentTime := x \<rparr>"
proof -
  let ?s = "s\<lparr> currentTime := x \<rparr>"
  from assms(1) have k: "\<not> morseAudio s" "lastKeyerState s = morseKeyer s"
    by (simp_all add: dec_idle_def keyed_def)
  have r: "read_signals lv a ?s = ?s"
    using k read_keyer_idle [OF assms] by (simp add: read_signals_def)
  have l: "?s\<lparr> lastKeyerState := morseKeyer ?s \<rparr> = ?s"
    using k by (intro same_update) simp
  show ?thesis
  proof (cases "morseSignalState s")
    case True
    with assms(1) have "\<not> gotLastSig s" "\<not> morseSpace s" by (simp_all add: dec_idle_def)
    then have g: "?s\<lparr> gotLastSig := False, morseSpace := False \<rparr> = ?s"
      by (simp add: same_update)
    have "morseSignalState (read_signals lv a ?s)" using True by (simp add: r)
    from decode_on [OF this] have "decode x lv a s =
        (?s\<lparr> gotLastSig := False, morseSpace := False \<rparr>)\<lparr> lastKeyerState := morseKeyer ?s \<rparr>"
      unfolding r by simp
    then show ?thesis unfolding g l .
  next
    case False
    with assms(1) have q: "gotLastSig s"
      "morseTableJumper s \<ge> 32 \<or> u - spaceTime s < dotTime s * 2"
      "morseSpace s \<or> u - spaceTime s \<le> wordSpace s * 2 div 3"
      by (simp_all add: dec_idle_def)

    have c: "classify_pulse ?s = ?s" using q(1) by (simp add: classify_pulse_def)
    have w: "write_character ?s = ?s"
      using q(2) assms(3) by (intro write_character_quiet) (simp add: morseTreetop_def; linarith)
    have sp: "write_space ?s = ?s"
      using q(3) assms(3) by (intro write_space_quiet) (simp; linarith)

    have "\<not> morseSignalState (read_signals lv a ?s)" using False by (simp add: r)
    from decode_off [OF this] show ?thesis unfolding r c w sp l .
  qed
qed

lemma dec_idle_step:
  assumes "dec_idle lv t u s" and "t \<le> x" and "x \<le> u"
  shows "poll_step (s, out) (x, lv, a) = (s\<lparr> currentTime := x \<rparr>, out)"
  using assms(1) by (simp add: poll_step_def dec_idle_decode [OF assms] decoder_available_def dec_idle_def)

lemma poll_append: "poll (xs @ ys) st = poll ys (poll xs st)"
  by (simp add: poll_def)

lemma poll_Nil [simp]: "poll [] st = st"
  by (simp add: poll_def)

lemma poll_Cons: "poll (x # xs) st = poll xs (poll_step st x)"
  by (simp add: poll_def)

lemma key_ticks_Suc: "key_ticks t (Suc n) lv = key_ticks t n lv @ [(t + int n, lv, 0)]"
  by (simp add: key_ticks_def)

lemma key_ticks_0 [simp]: "key_ticks t 0 lv = []"
  by (simp add: key_ticks_def)

lemma key_ticks_add: "key_ticks t (m + n) lv = key_ticks t m lv @ key_ticks (t + int m) n lv"
  by (induction n) (simp_all add: key_ticks_Suc add.assoc)

lemma dec_idle_run:
  assumes "dec_idle lv t u s" and "t + int n \<le> u"
  shows "poll (key_ticks t (Suc n) lv) (s, out) = (s\<lparr> currentTime := t + int n \<rparr>, out)"
  using assms(2)
proof (induction n)
  case 0
  then show ?case
    using dec_idle_step [OF assms(1), of t out 0] by (simp add: key_ticks_Suc poll_Cons)
next
  case (Suc n)
  then have "poll (key_ticks t (Suc n) lv) (s, out) = (s\<lparr> currentTime := t + int n \<rparr>, out)"
    by simp
  moreover have "poll_step (s, out) (t + int (Suc n), lv, 0) = (s\<lparr> currentTime := t + int (Suc n) \<rparr>, out)"
    using Suc.prems by (intro dec_idle_step [OF assms(1)]) simp_all
  ultimately show ?case
    by (simp add: key_ticks_Suc [of t "Suc n"] poll_append poll_Cons)
qed

lemma poll_idle_skip:
  assumes "dec_idle lv t u s" and "t + int n - 1 \<le> u"
  shows "poll (key_ticks t n lv @ tk # rest) (s, out) = poll (tk # rest) (s, out)"
proof (cases n)
  case 0
  then show ?thesis by simp
next
  case (Suc m)
  with assms(2) have "t + int m \<le> u" by simp
  from dec_idle_run [OF assms(1) this, of out] show ?thesis
    by (simp add: Suc poll_append poll_Cons)
qed

lemma seen_idle: "seen T s \<Longrightarrow> dec_idle True (T + 1) (T + 20) s"
  by (simp add: seen_def dec_idle_def)

lemma register_step:
  assumes "seen T s"
  shows "poll_step (s, out) (T + 21, True, 0) = ((key_down T s)\<lparr> currentTime := T + 21 \<rparr>, out)"
proof -
  let ?s = "s\<lparr> currentTime := T + 21 \<rparr>"
  from assms have k: "\<not> morseAudio s" "\<not> activeLow s" "debounceDelay s = 20" "lastKeyerState s" "morseKeyer s"
    "lastDebounceTime s = T" "decodedMorseChar s = CHR 0x00"
    by (simp_all add: seen_def keyed_def)
  have r: "read_signals True 0 ?s = ?s\<lparr> morseSignalState := True, markTime := T \<rparr>"
    using k by (simp add: read_signals_def read_keyer_def Let_def same_update)
  have "morseSignalState (read_signals True 0 ?s)" by (simp add: r)
  from decode_on [OF this] have "decode (T + 21) True 0 s = (key_down T s)\<lparr> currentTime := T + 21 \<rparr>"
    unfolding r using k by (simp add: key_down_def same_update)
  then show ?thesis
    using k by (simp add: poll_step_def decoder_available_def key_down_def)
qed

lemma key_down_idle: "seen T s \<Longrightarrow> dec_idle True (T + 22) u (key_down T s)"
  by (simp add: seen_def dec_idle_def key_down_def keyed_def)

lemma fall_step:
  assumes "seen T s"
  shows "poll_step (key_down T s, out) (S, False, 0) = ((key_up T S s)\<lparr> currentTime := S \<rparr>, out)"
proof -
  let ?s = "(key_down T s)\<lparr> currentTime := S \<rparr>"
  from assms have k: "\<not> morseAudio s" "\<not> activeLow s" "debounceDelay s = 20" "lastKeyerState s" "morseKeyer s"
    "lastDebounceTime s = T" "decodedMorseChar s = CHR 0x00"
    by (simp_all add: seen_def keyed_def)
  have r: "read_signals False 0 ?s = ?s\<lparr> morseKeyer := False, lastDebounceTime := S \<rparr>"
    using k by (simp add: read_signals_def read_keyer_def Let_def key_down_def)
  have "morseSignalState (read_signals False 0 ?s)" unfolding r by (simp add: key_down_def)
  from decode_on [OF this] have "decode S False 0 (key_down T s) = (key_up T S s)\<lparr> currentTime := S \<rparr>"
    unfolding r by (simp add: key_down_def key_up_def)
  then show ?thesis
    using k by (simp add: poll_step_def decoder_available_def key_up_def)
qed

lemma key_up_idle: "seen T s \<Longrightarrow> dec_idle False (S + 1) (S + 20) (key_up T S s)"
  by (simp add: seen_def dec_idle_def key_up_def keyed_def)

lemma off_state_ct [simp]: "off_state S (q\<lparr> currentTime := x \<rparr>) = off_state S q"
  by (simp add: off_state_def keyed_def)

lemma stage_keeps:
  "lastKeyerState (classify_pulse s) = lastKeyerState s"
  "lastKeyerState (write_character s) = lastKeyerState s"
  "lastKeyerState (write_space s) = lastKeyerState s"
  by (simp_all add: classify_pulse_def write_character_def write_space_def)

lemma off_decode:
  assumes "off_state S q" and "20 < x - S"
  shows "decode x False 0 q = write_space (write_character (classify_pulse (q\<lparr> currentTime := x \<rparr>)))"
proof -
  let ?q = "q\<lparr> currentTime := x \<rparr>"
  from assms have k: "\<not> morseAudio q" "\<not> activeLow q" "debounceDelay q = 20" "\<not> lastKeyerState q"
    "\<not> morseKeyer q" "\<not> morseSignalState q" "lastDebounceTime q = S" "spaceTime q = S"
    by (simp_all add: off_state_def keyed_def)
  have "read_keyer False ?q = ?q"
    using k assms(2) by (simp add: read_keyer_def Let_def same_update)
  then have r: "read_signals False 0 ?q = ?q"
    using k by (simp add: read_signals_def)
  have "\<not> morseSignalState (read_signals False 0 ?q)" using k by (simp add: r)
  from decode_off [OF this] have "decode x False 0 q =
      (write_space (write_character (classify_pulse ?q)))\<lparr> lastKeyerState := morseKeyer ?q \<rparr>"
    unfolding r .
  moreover have "lastKeyerState (write_space (write_character (classify_pulse ?q))) = morseKeyer ?q"
    using k by (simp add: stage_keeps)
  ultimately show ?thesis by (simp only: same_update(2))
qed

lemma same_update_char: "decodedMorseChar s = c \<Longrightarrow> s\<lparr> decodedMorseChar := c \<rparr> = s"
  by (cases s) simp

lemma table_no_nul: "i < 127 \<Longrightarrow> morseTable ! i \<noteq> CHR 0x00"
proof -
  assume "i < 127"
  then have "morseTable ! i \<in> set morseTable" by (intro nth_mem) (simp add: length_morseTable)
  moreover have "CHR 0x00 \<notin> set morseTable" by (simp add: morseTable_def)
  ultimately show ?thesis by metis
qed

lemma pending_fields:
  assumes "pending dash S b"
  shows "off_state S b" "\<not> gotLastSig b" "0 < morseTableJumper b" "tree_inv b"
    "spaceTime b = S" "\<not> morseSpace b" "1 \<le> dotTime b" "decodedMorseChar b = CHR 0x00"
  using assms by (simp_all add: pending_def off_state_def)

lemma classify_pulse_early:
  assumes "pending dash S b" and "x - S \<le> dotTime b div 2"
  shows "classify_pulse (b\<lparr> currentTime := x \<rparr>) = b\<lparr> currentTime := x \<rparr>"
  using pending_fields [OF assms(1)] assms(2) by (simp add: classify_pulse_def)

lemma classify_pulse_pending:
  assumes "pending dash S b" and "dotTime b div 2 < x - S"
  shows "classify_pulse (b\<lparr> currentTime := x \<rparr>) = (moved dash b)\<lparr> currentTime := x \<rparr>"
proof (cases dash)
  case True
  with assms(1) have "dotTime b div 4 < S - markTime b" "\<not> S - markTime b < dashTime b div 2"
    "S - markTime b < dashTime b + dotTime b" by (simp_all add: pending_def)
  with pending_fields [OF assms(1)] assms(2) True show ?thesis
    by (simp add: classify_pulse_def moved_def)
next
  case False
  with assms(1) have "dotTime b div 4 < S - markTime b" "S - markTime b < dashTime b div 2"
    by (simp_all add: pending_def)
  with pending_fields [OF assms(1)] assms(2) False show ?thesis
    by (simp add: classify_pulse_def moved_def)
qed

lemma classify_pulse_moved:
  "classify_pulse ((moved dash b)\<lparr> currentTime := x \<rparr>) = (moved dash b)\<lparr> currentTime := x \<rparr>"
  by (simp add: classify_pulse_def moved_def)

lemma classify_pulse_top:
  "classify_pulse ((at_top_of (moved dash b))\<lparr> currentTime := x \<rparr>) = (at_top_of (moved dash b))\<lparr> currentTime := x \<rparr>"
  by (simp add: classify_pulse_def moved_def at_top_of_def)

lemma moved_fields:
  "spaceTime (moved dash b) = spaceTime b" "dotTime (moved dash b) = dotTime b"
  "wordSpace (moved dash b) = wordSpace b" "morseSpace (moved dash b) = morseSpace b"
  "decodedMorseChar (moved dash b) = decodedMorseChar b"
  "morseTableJumper (moved dash b) = morseTableJumper b div 2"
  by (simp_all add: moved_def)

lemma top_fields:
  "spaceTime (at_top_of b) = spaceTime b" "dotTime (at_top_of b) = dotTime b"
  "wordSpace (at_top_of b) = wordSpace b" "morseSpace (at_top_of b) = morseSpace b"
  "decodedMorseChar (at_top_of b) = decodedMorseChar b"
  "morseTableJumper (at_top_of b) = 32"
  by (simp_all add: at_top_of_def)

lemma write_character_moved:
  assumes "pending dash S b" and "dotTime b * 2 \<le> x - S"
  shows "write_character ((moved dash b)\<lparr> currentTime := x \<rparr>) =
         (at_top_of (moved dash b))\<lparr> currentTime := x,
            decodedMorseChar := morseTable ! nat (morseTablePointer (moved dash b)) \<rparr>"
proof -
  from pending_fields [OF assms(1)] have "morseTableJumper b \<le> 32"
    by (auto simp: tree_inv_def tree_ok_def split: if_splits)
  then have "morseTableJumper b div 2 < 32" by simp
  with pending_fields [OF assms(1)] assms(2) show ?thesis
    by (simp add: write_character_def moved_fields morseTreetop_def at_top_of_def)
qed

lemma off_state_moved: "off_state S (moved dash b) = off_state S b"
  by (simp add: off_state_def moved_def keyed_def)

lemma off_state_top: "off_state S (at_top_of b) = off_state S b"
  by (simp add: off_state_def at_top_of_def keyed_def)

lemma poll_step_plain:
  assumes "decode x lv a q = q'" and "decodedMorseChar q' = CHR 0x00"
  shows "poll_step (q, out) (x, lv, a) = (q', out)"
  using assms by (simp add: poll_step_def decoder_available_def)

lemma poll_step_read:
  assumes "decode x lv a q = q'\<lparr> decodedMorseChar := c \<rparr>" and "c \<noteq> CHR 0x00"
    and "decodedMorseChar q' = CHR 0x00"
  shows "poll_step (q, out) (x, lv, a) = (q', out @ [c])"
  using assms by (simp add: poll_step_def decoder_available_def decoder_read_def same_update_char)

lemma silence_step:
  assumes p: "pending dash S b" and x: "S + 20 < x" and w: "x + 1 - S \<le> wordSpace b * 2 div 3"
  shows "poll_step (silence dash S b out x) (x + 1, False, 0) = silence dash S b out (x + 1)"
proof -
  note f = pending_fields [OF p]
  have ws: "\<And>q. spaceTime q = S \<Longrightarrow> wordSpace q = wordSpace b \<Longrightarrow> currentTime q = x + 1
         \<Longrightarrow> write_space q = q"
    using w by (intro write_space_quiet) simp
  consider (early) "x + 1 - S \<le> dotTime b div 2"
    | (now) "x - S \<le> dotTime b div 2" "dotTime b div 2 < x + 1 - S"
    | (mid) "dotTime b div 2 < x - S" "x + 1 - S < dotTime b * 2"
    | (emit) "dotTime b div 2 < x - S" "x - S < dotTime b * 2" "dotTime b * 2 \<le> x + 1 - S"
    | (late) "dotTime b * 2 \<le> x - S"
    by linarith
  then show ?thesis
  proof cases
    case early
    have wc: "write_character (b\<lparr> currentTime := x + 1 \<rparr>) = b\<lparr> currentTime := x + 1 \<rparr>"
      using early f by (intro write_character_quiet) (simp; linarith)
    have "decode (x + 1) False 0 (b\<lparr> currentTime := x \<rparr>) = b\<lparr> currentTime := x + 1 \<rparr>"
      using off_decode [of S "b\<lparr> currentTime := x \<rparr>" "x + 1"] f(1) x
      by (simp add: classify_pulse_early [OF p early] wc ws f)
    from poll_step_plain [OF this] show ?thesis
      using early f by (simp add: silence_def)
  next
    case now
    then have lt: "x + 1 - S < dotTime b * 2" using f by linarith
    have wc: "write_character ((moved dash b)\<lparr> currentTime := x + 1 \<rparr>) = (moved dash b)\<lparr> currentTime := x + 1 \<rparr>"
      using lt f by (intro write_character_quiet) (simp add: moved_fields)
    have "decode (x + 1) False 0 (b\<lparr> currentTime := x \<rparr>) = (moved dash b)\<lparr> currentTime := x + 1 \<rparr>"
      using off_decode [of S "b\<lparr> currentTime := x \<rparr>" "x + 1"] f(1) x
      by (simp add: classify_pulse_pending [OF p now(2)] wc ws f moved_fields)
    from poll_step_plain [OF this] show ?thesis
      using now lt f by (simp add: silence_def moved_fields)
  next
    case mid
    have wc: "write_character ((moved dash b)\<lparr> currentTime := x + 1 \<rparr>) = (moved dash b)\<lparr> currentTime := x + 1 \<rparr>"
      using mid f by (intro write_character_quiet) (simp add: moved_fields)
    have "decode (x + 1) False 0 ((moved dash b)\<lparr> currentTime := x \<rparr>) = (moved dash b)\<lparr> currentTime := x + 1 \<rparr>"
      using off_decode [of S "(moved dash b)\<lparr> currentTime := x \<rparr>" "x + 1"] f(1) x
      by (simp add: off_state_moved classify_pulse_moved wc ws f moved_fields)
    from poll_step_plain [OF this] show ?thesis
      using mid f by (simp add: silence_def moved_fields)
  next
    case emit
    have r: "0 \<le> morseTablePointer (moved dash b)" "morseTablePointer (moved dash b) \<le> 126"
      using tree_ok_move [of "morseTableJumper b" "morseTablePointer b"] f
      by (cases dash; simp add: moved_def tree_inv_def tree_ok_def)+
    then have c: "morseTable ! nat (morseTablePointer (moved dash b)) \<noteq> CHR 0x00"
      by (intro table_no_nul) linarith
    have "decode (x + 1) False 0 ((moved dash b)\<lparr> currentTime := x \<rparr>) =
        ((at_top_of (moved dash b))\<lparr> currentTime := x + 1 \<rparr>)
          \<lparr> decodedMorseChar := morseTable ! nat (morseTablePointer (moved dash b)) \<rparr>"
      using off_decode [of S "(moved dash b)\<lparr> currentTime := x \<rparr>" "x + 1"] f(1) x
      by (simp add: off_state_moved classify_pulse_moved write_character_moved [OF p emit(3)]
          ws f moved_fields top_fields)
    from poll_step_read [OF this c] show ?thesis
      using emit f by (simp add: silence_def moved_fields top_fields)
  next
    case late
    have wc: "write_character ((at_top_of (moved dash b))\<lparr> currentTime := x + 1 \<rparr>)
              = (at_top_of (moved dash b))\<lparr> currentTime := x + 1 \<rparr>"
      by (intro write_character_quiet) (simp add: top_fields morseTreetop_def)
    have d: "decode (x + 1) False 0 ((at_top_of (moved dash b))\<lparr> currentTime := x \<rparr>)
          = (at_top_of (moved dash b))\<lparr> currentTime := x + 1 \<rparr>"
      using off_decode [of S "(at_top_of (moved dash b))\<lparr> currentTime := x \<rparr>" "x + 1"] f(1) x
      by (simp add: off_state_moved off_state_top classify_pulse_top wc ws f moved_fields top_fields)
    have n: "\<not> x - S \<le> dotTime b div 2" "\<not> x + 1 - S \<le> dotTime b div 2"
      "\<not> x - S < dotTime b * 2" "\<not> x + 1 - S < dotTime b * 2"
      using late f by linarith+
    from poll_step_plain [OF d] n show ?thesis
      using f by (simp add: silence_def moved_fields top_fields)
  qed
qed

lemma pending_off_base:
  assumes "seen T s" and "tree_inv s" and "0 < morseTableJumper s" and "1 \<le> dotTime s"
    and "dotTime s div 4 < S - T"
    and "if dash then \<not> S - T < dashTime s div 2 \<and> S - T < dashTime s + dotTime s
         else S - T < dashTime s div 2"
  shows "pending dash S (off_base T S s)"
  using assms
  by (simp add: pending_def off_state_def off_base_def key_up_def seen_def keyed_def tree_inv_def)

lemma silence_enter:
  assumes s: "seen T s" and p: "pending dash S (off_base T S s)"
    and d: "21 < dotTime s * 2" and w: "21 \<le> wordSpace s * 2 div 3"
  shows "poll_step (key_up T S s, out) (S + 21, False, 0) = silence dash S (off_base T S s) out (S + 21)"
proof -
  let ?b = "off_base T S s"
  let ?q = "(key_up T S s)\<lparr> currentTime := S + 21 \<rparr>"
  note f = pending_fields [OF p]
  have bf: "dotTime ?b = dotTime s" "wordSpace ?b = wordSpace s"
    by (simp_all add: off_base_def key_up_def)
  from s have k: "\<not> morseAudio s" "\<not> activeLow s" "debounceDelay s = 20"
    by (simp_all add: seen_def keyed_def)
  have "read_keyer False ?q = ?b\<lparr> currentTime := S + 21 \<rparr>"
    using k by (simp add: read_keyer_def Let_def key_up_def off_base_def)
  then have r: "read_signals False 0 ?q = ?b\<lparr> currentTime := S + 21 \<rparr>"
    using k by (simp add: read_signals_def key_up_def)
  have "\<not> morseSignalState (read_signals False 0 ?q)"
    unfolding r by (simp add: off_base_def)
  from decode_off [OF this] have "decode (S + 21) False 0 (key_up T S s) =
      (write_space (write_character (classify_pulse (?b\<lparr> currentTime := S + 21 \<rparr>))))
        \<lparr> lastKeyerState := morseKeyer (?b\<lparr> currentTime := S + 21 \<rparr>) \<rparr>"
    unfolding r .
  moreover have "lastKeyerState (write_space (write_character (classify_pulse (?b\<lparr> currentTime := S + 21 \<rparr>))))
      = morseKeyer (?b\<lparr> currentTime := S + 21 \<rparr>)"
    by (simp add: stage_keeps) (simp add: off_base_def key_up_def)
  ultimately have dec: "decode (S + 21) False 0 (key_up T S s) =
      write_space (write_character (classify_pulse (?b\<lparr> currentTime := S + 21 \<rparr>)))"
    by (simp only: same_update(2))
  have ws: "\<And>q. spaceTime q = S \<Longrightarrow> wordSpace q = wordSpace ?b \<Longrightarrow> currentTime q = S + 21
         \<Longrightarrow> write_space q = q"
    using w bf by (intro write_space_quiet) simp
  show ?thesis
  proof (cases "21 \<le> dotTime ?b div 2")
    case True
    then have e: "S + 21 - S \<le> dotTime ?b div 2" by simp
    have wc: "write_character (?b\<lparr> currentTime := S + 21 \<rparr>) = ?b\<lparr> currentTime := S + 21 \<rparr>"
      using d f bf by (intro write_character_quiet) simp
    have "decode (S + 21) False 0 (key_up T S s) = ?b\<lparr> currentTime := S + 21 \<rparr>"
      unfolding dec by (simp add: classify_pulse_early [OF p e] wc ws f)
    from poll_step_plain [OF this] show ?thesis
      using True f by (simp add: silence_def)
  next
    case False
    then have e: "dotTime ?b div 2 < S + 21 - S" by simp
    have wc: "write_character ((moved dash ?b)\<lparr> currentTime := S + 21 \<rparr>) = (moved dash ?b)\<lparr> currentTime := S + 21 \<rparr>"
      using d f bf by (intro write_character_quiet) (simp add: moved_fields)
    have "decode (S + 21) False 0 (key_up T S s) = (moved dash ?b)\<lparr> currentTime := S + 21 \<rparr>"
      unfolding dec by (simp add: classify_pulse_pending [OF p e] wc ws f moved_fields)
    from poll_step_plain [OF this] show ?thesis
      using False d f bf by (simp add: silence_def moved_fields)
  qed
qed

lemma silence_run:
  assumes s: "seen T s" and p: "pending dash S (off_base T S s)"
    and d: "21 < dotTime s * 2" and w: "21 + int n \<le> wordSpace s * 2 div 3"
  shows "poll (key_ticks (S + 21) (Suc n) False) (key_up T S s, out)
         = silence dash S (off_base T S s) out (S + 21 + int n)"
  using w
proof (induction n)
  case 0
  then show ?case
    using silence_enter [OF s p d, of out] by (simp add: key_ticks_Suc poll_Cons)
next
  case (Suc n)
  have bf: "wordSpace (off_base T S s) = wordSpace s"
    by (simp add: off_base_def key_up_def)
  from Suc have "poll (key_ticks (S + 21) (Suc n) False) (key_up T S s, out)
         = silence dash S (off_base T S s) out (S + 21 + int n)" by simp
  moreover have "poll_step (silence dash S (off_base T S s) out (S + 21 + int n)) (S + 21 + int n + 1, False, 0)
      = silence dash S (off_base T S s) out (S + 21 + int n + 1)"
    using Suc.prems bf by (intro silence_step [OF p]) simp_all
  ultimately show ?case
    by (simp add: key_ticks_Suc [of _ "Suc n"] poll_append poll_Cons add.assoc)
qed

lemma key_ticks_Cons: "key_ticks t (Suc n) lv = (t, lv, 0) # key_ticks (t + 1) n lv"
  using key_ticks_add [of t 1 n lv] by (simp add: key_ticks_def)

lemma poll_ct [simp]: "poll (tk # rest) (s\<lparr> currentTime := x \<rparr>, out) = poll (tk # rest) (s, out)"
  by (simp add: poll_Cons)

text \<open>one pulse of 22 + h ticks and the silence of 22 + l ticks after it\<close>

lemma pulse_and_gap:
  assumes s: "seen T s" and S: "S = T + 22 + int h"
    and p: "pending dash S (off_base T S s)"
    and d: "21 < dotTime s * 2" and w: "21 + int l \<le> wordSpace s * 2 div 3"
  shows "poll (key_ticks (T + 1) (21 + h) True @ key_ticks S (22 + l) False) (s, out)
         = silence dash S (off_base T S s) out (S + 21 + int l)"
proof -
  have hi: "key_ticks (T + 1) (21 + h) True
            = key_ticks (T + 1) 20 True @ (T + 21, True, 0) # key_ticks (T + 22) h True"
    using key_ticks_add [of "T + 1" 20 "Suc h" True] by (simp add: key_ticks_Cons ac_simps)
  have lo: "key_ticks S (22 + l) False
            = (S, False, 0) # key_ticks (S + 1) 20 False @ key_ticks (S + 21) (Suc l) False"
    using key_ticks_add [of "S + 1" 20 "Suc l" False] key_ticks_Cons [of S "21 + l" False]
    by (simp add: ac_simps)
  have 1: "poll (key_ticks (T + 1) 20 True @ (T + 21, True, 0) # rest) (s, out)
           = poll rest ((key_down T s)\<lparr> currentTime := T + 21 \<rparr>, out)" for rest
    using poll_idle_skip [OF seen_idle [OF s], where n = 20 and out = out and tk = "(T + 21, True, 0)"
        and rest = rest]
    by (simp add: poll_Cons register_step [OF s])
  have 2: "poll (key_ticks (T + 22) h True @ (S, False, 0) # rest) ((key_down T s)\<lparr> currentTime := T + 21 \<rparr>, out)
           = poll rest ((key_up T S s)\<lparr> currentTime := S \<rparr>, out)" for rest
    using poll_idle_skip [where lv = True and t = "T + 22" and u = "T + 22 + int h"
        and s = "(key_down T s)\<lparr> currentTime := T + 21 \<rparr>" and n = h and out = out
        and tk = "(S, False, 0)" and rest = rest] key_down_idle [OF s, of "T + 22 + int h"]
    by (simp add: poll_Cons fall_step [OF s])
  have 3: "poll (key_ticks (S + 1) 20 False @ key_ticks (S + 21) (Suc l) False) ((key_up T S s)\<lparr> currentTime := S \<rparr>, out)
           = poll (key_ticks (S + 21) (Suc l) False) (key_up T S s, out)"
    using poll_idle_skip [where lv = False and t = "S + 1" and u = "S + 20"
        and s = "(key_up T S s)\<lparr> currentTime := S \<rparr>" and n = 20 and out = out
        and tk = "(S + 21, False, 0)" and rest = "key_ticks (S + 21 + 1) l False"]
      key_up_idle [OF s, of S]
    by (simp add: key_ticks_Cons [of "S + 21"])
  show ?thesis
    unfolding hi lo by (simp only: append_assoc append_Cons 1 2 3 silence_run [OF s p d w])
qed

lemma same_update_enc:
  "sendingMorse e = b \<Longrightarrow> e\<lparr> sendingMorse := b \<rparr> = e"
  by (cases e) simp

lemma encode_ct [simp]: "encode x (e\<lparr> enc_currentTime := y \<rparr>) = encode x e"
  by (simp add: encode_def)

lemma switch_signal_wait:
  assumes "enc_wait u e" and "enc_currentTime e \<le> u"
  shows "switch_signal e = e"
proof (cases "morseSignalString e ! nat (sendingMorseSignalNr e) = CHR ''.''")
  case True
  with assms(1) have "u - sendMorseTimer e < enc_dotTime e" by (simp add: enc_wait_def)
  with assms(2) have "\<not> enc_currentTime e - sendMorseTimer e \<ge> enc_dotTime e" by linarith
  with True show ?thesis by (simp add: switch_signal_def Let_def)
next
  case nd: False
  show ?thesis
  proof (cases "morseSignalString e ! nat (sendingMorseSignalNr e) = CHR ''-''")
    case True
    with assms(1) have "u - sendMorseTimer e < enc_dashTime e" by (simp add: enc_wait_def)
    with assms(2) have "\<not> enc_currentTime e - sendMorseTimer e \<ge> enc_dashTime e" by linarith
    with True show ?thesis by (simp add: switch_signal_def Let_def)
  next
    case False
    with nd assms(1) have x: "morseSignalString e ! nat (sendingMorseSignalNr e) = CHR ''x''"
      by (simp add: enc_wait_def)
    show ?thesis
    proof (cases "sendingMorseSignalNr e < morseSignals e - 1")
      case True
      with nd False assms(1) have "u - sendMorseTimer e < enc_dotTime e" by (simp add: enc_wait_def)
      with assms(2) have "\<not> enc_currentTime e - sendMorseTimer e \<ge> enc_dotTime e" by linarith
      with True x show ?thesis by (simp add: switch_signal_def Let_def)
    next
      case l: False
      with nd False assms(1) have "u - sendMorseTimer e < enc_dashTime e" by (simp add: enc_wait_def)
      with assms(2) have "\<not> enc_currentTime e - sendMorseTimer e \<ge> enc_dashTime e" by linarith
      with l x show ?thesis by (simp add: switch_signal_def Let_def)
    qed
  qed
qed

lemma send_signal_wait:
  assumes "enc_wait u e" and "enc_currentTime e \<le> u"
  shows "send_signal e = e"
proof -
  from assms(1) have "\<not> sendingMorseSignalNr e \<ge> morseSignals e" by (simp add: enc_wait_def)
  then show ?thesis
    by (simp add: send_signal_def switch_signal_wait [OF assms])
qed

lemma enc_wait_ct [simp]: "enc_wait u (e\<lparr> enc_currentTime := x \<rparr>) = enc_wait u e"
  by (simp add: enc_wait_def)

lemma encode_wait:
  assumes "enc_wait u e" and "x \<le> u"
  shows "encode x e = e\<lparr> enc_currentTime := x \<rparr>"
proof -
  from assms(1) have s: "sendingMorse e" by (simp add: enc_wait_def)
  have "send_signal (e\<lparr> enc_currentTime := x \<rparr>) = e\<lparr> enc_currentTime := x \<rparr>"
    using assms by (intro send_signal_wait [of u]) simp_all
  with s show ?thesis by (simp add: encode_def Let_def)
qed

lemma loop_step_ct [simp]:
  "loop_step t (e\<lparr> enc_currentTime := x \<rparr>, s, out) = loop_step t (e, s, out)"
  by (simp add: loop_step_def)

lemma sar_ct [simp]:
  "send_and_receive n t (e\<lparr> enc_currentTime := x \<rparr>, s, out) = send_and_receive n t (e, s, out)"
  by (cases n) simp_all

lemma outputLevel_ct [simp]: "outputLevel (e\<lparr> enc_currentTime := x \<rparr>) = outputLevel e"
  by (simp add: outputLevel_def)

lemma joint_wait:
  assumes "enc_wait u e" and "t + int n - 1 \<le> u"
  shows "send_and_receive (n + fuel) t (e, s, out)
         = send_and_receive fuel (t + int n) (e, poll (key_ticks t n (outputLevel e)) (s, out))"
  using assms(2)
proof (induction n arbitrary: t s out)
  case 0
  then show ?case by simp
next
  case (Suc n)
  have e: "encode t e = e\<lparr> enc_currentTime := t \<rparr>"
    using Suc.prems by (intro encode_wait [OF assms(1)]) simp
  obtain s' out' where p: "poll_step (s, out) (t, outputLevel e, 0) = (s', out')"
    by (cases "poll_step (s, out) (t, outputLevel e, 0)")
  have l: "loop_step t (e, s, out) = (e\<lparr> enc_currentTime := t \<rparr>, s', out')"
    by (simp add: loop_step_def e p)
  have a: "\<not> encoder_available (e\<lparr> enc_currentTime := t \<rparr>)"
    using assms(1) by (simp add: encoder_available_def enc_wait_def)
  have "send_and_receive (Suc n + fuel) t (e, s, out) = send_and_receive (n + fuel) (t + 1) (e, s', out')"
    using a by (simp add: l)
  also have "\<dots> = send_and_receive fuel (t + 1 + int n) (e, poll (key_ticks (t + 1) n (outputLevel e)) (s', out'))"
    using Suc.prems by (intro Suc.IH) simp
  finally show ?case
    by (simp add: key_ticks_Cons poll_Cons p add.assoc)
qed

lemma sending_at_sym:
  assumes "sending_at syms k T e"
  shows "morseSignalString e ! k = syms ! k" and "syms ! k = CHR ''.'' \<or> syms ! k = CHR ''-''"
proof -
  from assms have k: "k < length syms" and l: "length syms < length (morseSignalString e)"
    and d: "drop k (take (length syms) (morseSignalString e)) = drop k syms"
    and s: "set syms \<subseteq> {CHR ''.'', CHR ''-''}"
    by (simp_all add: sending_at_def)
  have "morseSignalString e ! k = take (length syms) (morseSignalString e) ! k"
    using k by simp
  also have "\<dots> = drop k (take (length syms) (morseSignalString e)) ! 0"
    using k l by simp
  also have "\<dots> = syms ! k" unfolding d using k by simp
  finally show "morseSignalString e ! k = syms ! k" .
  from k s have "syms ! k \<in> {CHR ''.'', CHR ''-''}" using nth_mem by blast
  then show "syms ! k = CHR ''.'' \<or> syms ! k = CHR ''-''" by simp
qed

lemma sending_wait:
  assumes "sending_at syms k T e"
  shows "enc_wait (T + dur e (syms ! k) - 1) e"
proof -
  from assms have f: "sendingMorse e" "sendingMorseSignalNr e = int k" "sendMorseTimer e = T"
    "morseSignals e = int (length syms)" "k < length syms"
    by (simp_all add: sending_at_def)
  note y = sending_at_sym [OF assms]
  show ?thesis
  proof (cases "syms ! k = CHR ''.''")
    case True
    then show ?thesis using f y(1) by (simp add: enc_wait_def dur_def)
  next
    case False
    with y(2) have "syms ! k = CHR ''-''" by simp
    then show ?thesis using f y(1) by (simp add: enc_wait_def dur_def)
  qed
qed

lemma encode_fall:
  assumes "sending_at syms k T e"
  shows "encode (T + dur e (syms ! k)) e = enc_fall (T + dur e (syms ! k)) e"
proof -
  let ?x = "T + dur e (syms ! k)"
  let ?e = "e\<lparr> enc_currentTime := ?x \<rparr>"
  from assms have f: "sendingMorse e" "sendingMorseSignalNr e = int k" "sendMorseTimer e = T"
    "morseSignals e = int (length syms)" "k < length syms"
    by (simp_all add: sending_at_def)
  note y = sending_at_sym [OF assms]
  have sw: "switch_signal ?e = enc_fall ?x e"
  proof (cases "syms ! k = CHR ''.''")
    case True
    with y(1) have "morseSignalString e ! k = CHR ''.''" by simp
    then show ?thesis
      using f True by (simp add: switch_signal_def Let_def dur_def enc_fall_def digitalWrite_def)
  next
    case False
    with y(2) have d: "syms ! k = CHR ''-''" by simp
    with y(1) have "morseSignalString e ! k = CHR ''-''" by simp
    then show ?thesis
      using f d by (simp add: switch_signal_def Let_def dur_def enc_fall_def digitalWrite_def)
  qed
  have "send_signal ?e = enc_fall ?x e"
    using f by (simp add: send_signal_def sw) (simp add: enc_fall_def)
  then show ?thesis using f by (simp add: encode_def)
qed

lemma fall_wait:
  assumes "sending_at syms k T e"
  shows "enc_wait (x + (if Suc k < length syms then enc_dotTime e else enc_dashTime e) - 1) (enc_fall x e)"
  using assms
  by (simp add: enc_wait_def sending_at_def enc_fall_def)

lemma fall_level:
  "\<not> outputLevel (enc_fall x e)"
  by (simp add: outputLevel_def enc_fall_def)

lemma encode_rise:
  assumes "sending_at syms k T e" and "Suc k < length syms"
  shows "encode (x + enc_dotTime e) (enc_fall x e) = enc_rise (x + enc_dotTime e) (enc_fall x e)"
proof -
  let ?y = "x + enc_dotTime e"
  let ?e = "(enc_fall x e)\<lparr> enc_currentTime := ?y \<rparr>"
  from assms have f: "sendingMorse e" "sendingMorseSignalNr e = int k"
    "morseSignals e = int (length syms)" "k < length (morseSignalString e)"
    by (simp_all add: sending_at_def)
  have sw: "switch_signal ?e = enc_rise ?y (enc_fall x e)"
    using f assms(2) by (simp add: switch_signal_def Let_def enc_fall_def enc_rise_def digitalWrite_def)
  have "send_signal ?e = enc_rise ?y (enc_fall x e)"
    using f assms(2) by (simp add: send_signal_def sw) (simp add: enc_fall_def enc_rise_def)
  then show ?thesis using f by (simp add: encode_def enc_fall_def)
qed

lemma rise_sending:
  assumes "sending_at syms k T e" and "Suc k < length syms"
  shows "sending_at syms (Suc k) y (enc_rise y (enc_fall x e))"
proof -
  from assms(1) have d: "drop k (take (length syms) (morseSignalString e)) = drop k syms"
    by (simp add: sending_at_def)
  have "drop (Suc k) (take (length syms) (morseSignalString e))
        = drop 1 (drop k (take (length syms) (morseSignalString e)))" by simp
  also have "\<dots> = drop (Suc k) syms" unfolding d by simp
  finally have "drop (Suc k) (take (length syms) ((morseSignalString e)[k := CHR ''x''])) = drop (Suc k) syms"
    by (simp add: take_update_swap drop_update_cancel)
  then show ?thesis
    using assms by (simp add: sending_at_def enc_rise_def enc_fall_def outputLevel_def)
qed

lemma encode_done:
  assumes "sending_at syms k T e" and "Suc k = length syms"
  shows "encode (x + enc_dashTime e) (enc_fall x e) = enc_done (x + enc_dashTime e) (enc_fall x e)"
proof -
  let ?y = "x + enc_dashTime e"
  let ?e = "(enc_fall x e)\<lparr> enc_currentTime := ?y \<rparr>"
  from assms have f: "sendingMorse e" "sendingMorseSignalNr e = int k"
    "morseSignals e = int (length syms)" "k < length (morseSignalString e)"
    by (simp_all add: sending_at_def)
  have sw: "switch_signal ?e = (enc_fall x e)\<lparr> enc_currentTime := ?y,
      sendingMorseSignalNr := sendingMorseSignalNr (enc_fall x e) + 1, sendMorseTimer := ?y \<rparr>"
    using f assms(2) by (simp add: switch_signal_def Let_def enc_fall_def)
  have "send_signal ?e = enc_done ?y (enc_fall x e)"
    using f assms(2) by (simp add: send_signal_def sw) (simp add: enc_fall_def enc_done_def)
  then show ?thesis using f by (simp add: encode_def enc_fall_def)
qed

lemma done_available: "encoder_available (enc_done y e)"
  by (simp add: encoder_available_def enc_done_def)

lemma resting_ct [simp]: "resting T (q\<lparr> currentTime := x \<rparr>) = resting T q"
  by (simp add: resting_def keyed_def)

lemma rise_step:
  assumes "resting T q"
  shows "poll_step (q, out) (T, True, 0) = (rise T q, out)"
proof -
  let ?q = "q\<lparr> currentTime := T \<rparr>"
  let ?r = "?q\<lparr> morseKeyer := True, lastDebounceTime := T \<rparr>"
  from assms have k: "\<not> morseAudio q" "\<not> activeLow q" "debounceDelay q = 20" "\<not> lastKeyerState q"
    "\<not> morseSignalState q" "gotLastSig q" "decodedMorseChar q = CHR 0x00"
    and q1: "morseTableJumper q \<ge> 32 \<or> T + 20 - spaceTime q < dotTime q * 2"
    and q2: "morseSpace q \<or> T + 20 - spaceTime q \<le> wordSpace q * 2 div 3"
    by (simp_all add: resting_def keyed_def)
  have "read_keyer True ?q = ?r"
    using k by (simp add: read_keyer_def Let_def)
  then have r: "read_signals True 0 ?q = ?r"
    using k by (simp add: read_signals_def)
  have c: "classify_pulse ?r = ?r" using k by (simp add: classify_pulse_def)
  have w: "write_character ?r = ?r"
    using q1 by (intro write_character_quiet) (simp add: morseTreetop_def; linarith)
  have sp: "write_space ?r = ?r"
    using q2 by (intro write_space_quiet) (simp; linarith)
  have "\<not> morseSignalState (read_signals True 0 ?q)" using k by (simp add: r)
  from decode_off [OF this] have "decode T True 0 q = rise T q"
    unfolding r c w sp by (simp add: rise_def)
  from poll_step_plain [OF this] show ?thesis using k by (simp add: rise_def)
qed

lemma rise_seen: "resting T q \<Longrightarrow> seen T (rise T q)"
  by (simp add: resting_def seen_def rise_def keyed_def)

lemma sar_step:
  "send_and_receive (Suc n) t (e, s, out) =
     (if encoder_available (encode t e)
      then Some (snd (poll_step (s, out) (t, outputLevel (encode t e), 0)))
      else send_and_receive n (t + 1)
             (encode t e, poll_step (s, out) (t, outputLevel (encode t e), 0)))"
  by (simp add: loop_step_def Let_def split: prod.splits)

declare send_and_receive.simps [simp del]

lemma dur_cases:
  assumes "sending_at syms k T e"
  shows "dur e (syms ! k) = (if syms ! k = CHR ''-'' then enc_dashTime e else enc_dotTime e)"
  using sending_at_sym(2) [OF assms] by (auto simp: dur_def)

lemma symbol_pending:
  assumes e: "sending_at syms k T e" and s: "seen T s" and ti: "tree_inv s"
    and j: "0 < morseTableJumper s" and tm: "timing s"
    and sp: "enc_dotTime e = dotTime s" "enc_dashTime e = dashTime s"
  shows "pending (syms ! k = CHR ''-'') (T + dur e (syms ! k)) (off_base T (T + dur e (syms ! k)) s)"
proof (rule pending_off_base [OF s ti j])
  from tm show "1 \<le> dotTime s" by (simp add: timing_def)
  from tm sp show "dotTime s div 4 < T + dur e (syms ! k) - T"
    unfolding dur_cases [OF e] timing_def by (simp split: if_splits; linarith)
  from tm sp show "if syms ! k = CHR ''-''
     then \<not> T + dur e (syms ! k) - T < dashTime s div 2 \<and> T + dur e (syms ! k) - T < dashTime s + dotTime s
     else T + dur e (syms ! k) - T < dashTime s div 2"
    unfolding dur_cases [OF e] timing_def by (simp split: if_splits; linarith)
qed

lemma sar_step':
  "send_and_receive (Suc n) t (e, st) =
     (if encoder_available (encode t e)
      then Some (snd (poll_step st (t, outputLevel (encode t e), 0)))
      else send_and_receive n (t + 1) (encode t e, poll_step st (t, outputLevel (encode t e), 0)))"
  by (cases st) (simp add: sar_step)

lemma joint_wait':
  assumes "enc_wait u e" and "t + int n - 1 \<le> u"
  shows "send_and_receive (n + fuel) t (e, st)
         = send_and_receive fuel (t + int n) (e, poll (key_ticks t n (outputLevel e)) st)"
  using joint_wait [OF assms] by (cases st) simp

lemma timing_bounds:
  assumes "timing s"
  shows "22 \<le> dotTime s" "22 \<le> dashTime s" "21 < dotTime s * 2"
    "dotTime s + 20 < dotTime s * 2" "dotTime s + 20 \<le> wordSpace s * 2 div 3"
    "dashTime s \<le> wordSpace s * 2 div 3" "dotTime s * 2 \<le> dashTime s"
    "dotTime s div 2 < dotTime s - 1"
  using assms unfolding timing_def by linarith+

lemma symbol_inner:
  assumes e: "sending_at syms k T e" and k: "Suc k < length syms"
    and s: "seen T s" and ti: "tree_inv s" and j: "0 < morseTableJumper s" and tm: "timing s"
    and sp: "enc_dotTime e = dotTime s" "enc_dashTime e = dashTime s"
  shows "send_and_receive (nat (dur e (syms ! k) + dotTime s) + fuel) (T + 1) (e, s, out)
        = send_and_receive fuel (T + dur e (syms ! k) + dotTime s + 1)
            (enc_rise (T + dur e (syms ! k) + dotTime s) (enc_fall (T + dur e (syms ! k)) e),
             rise (T + dur e (syms ! k) + dotTime s)
               (moved (syms ! k = CHR ''-'') (off_base T (T + dur e (syms ! k)) s)), out)"
proof -
  define Dk where "Dk = dur e (syms ! k)"
  define S where "S = T + Dk"
  define T' where "T' = S + dotTime s"
  define b where "b = off_base T S s"
  define dash where "dash = (syms ! k = CHR ''-'')"
  note tb = timing_bounds [OF tm]
  have "22 \<le> Dk" unfolding Dk_def dur_cases [OF e] using tb sp by simp
  then obtain h where h: "Dk = 22 + int h" by (metis nonneg_int_cases diff_ge_0_iff_ge add_diff_cancel_left' add.commute diff_add_cancel)
  from tb obtain l where l: "dotTime s = 22 + int l" by (metis nonneg_int_cases diff_ge_0_iff_ge add_diff_cancel_left' add.commute diff_add_cancel)
  have Sh: "S = T + 22 + int h" by (simp add: S_def h)
  have fu: "nat (Dk + dotTime s) + fuel = (21 + h) + Suc ((21 + l) + Suc fuel)"
    by (simp add: h l)
  have p: "pending dash S b"
    unfolding dash_def S_def b_def Dk_def by (rule symbol_pending [OF e s ti j tm sp])
  have bf: "dotTime b = dotTime s" "wordSpace b = wordSpace s"
    by (simp_all add: b_def off_base_def key_up_def)
  have "poll (key_ticks (T + 1) (21 + h) True @ key_ticks S (22 + l) False) (s, out)
        = silence dash S b out (S + 21 + int l)"
    unfolding b_def using tb l by (intro pulse_and_gap [OF s Sh p [unfolded b_def]]) simp_all
  also have "\<dots> = ((moved dash b)\<lparr> currentTime := S + 21 + int l \<rparr>, out)"
    using tb l bf by (simp add: silence_def)
  finally have dec: "poll (key_ticks (T + 1) (21 + h) True @ key_ticks S (22 + l) False) (s, out)
        = ((moved dash b)\<lparr> currentTime := S + 21 + int l \<rparr>, out)" .
  have lv: "outputLevel e" "sendingMorse e" using e by (simp_all add: sending_at_def)
  have 1: "send_and_receive ((21 + h) + Suc ((21 + l) + Suc fuel)) (T + 1) (e, s, out)
        = send_and_receive (Suc ((21 + l) + Suc fuel)) S
            (e, poll (key_ticks (T + 1) (21 + h) True) (s, out))"
    using joint_wait' [OF sending_wait [OF e], where n = "21 + h" and t = "T + 1"
        and fuel = "Suc ((21 + l) + Suc fuel)" and st = "(s, out)"] lv
    by (simp add: Dk_def [symmetric] h S_def ac_simps)
  have ef: "encode S e = enc_fall S e"
    unfolding S_def Dk_def by (rule encode_fall [OF e])
  have nf: "\<not> encoder_available (enc_fall S e)"
    using lv by (simp add: encoder_available_def enc_fall_def)
  have 2: "send_and_receive (Suc ((21 + l) + Suc fuel)) S (e, st)
        = send_and_receive ((21 + l) + Suc fuel) (S + 1) (enc_fall S e, poll_step st (S, False, 0))" for st
    by (subst sar_step') (simp add: ef nf fall_level)
  have 3: "send_and_receive ((21 + l) + Suc fuel) (S + 1) (enc_fall S e, st)
        = send_and_receive (Suc fuel) T' (enc_fall S e, poll (key_ticks (S + 1) (21 + l) False) st)" for st
    using joint_wait' [OF fall_wait [OF e, of S], where n = "21 + l" and t = "S + 1"
        and fuel = "Suc fuel" and st = st] k sp
    by (simp add: l T'_def fall_level ac_simps)
  have comb: "poll (key_ticks (S + 1) (21 + l) False)
                (poll_step (poll (key_ticks (T + 1) (21 + h) True) (s, out)) (S, False, 0))
              = ((moved dash b)\<lparr> currentTime := S + 21 + int l \<rparr>, out)"
    using dec key_ticks_Cons [of S "21 + l" False] by (simp add: poll_append poll_Cons)
  have er: "encode T' (enc_fall S e) = enc_rise T' (enc_fall S e)"
    unfolding T'_def using encode_rise [OF e k, of S] sp by simp
  have nr: "\<not> encoder_available (enc_rise T' (enc_fall S e))" "outputLevel (enc_rise T' (enc_fall S e))"
    using lv by (simp_all add: encoder_available_def enc_fall_def enc_rise_def outputLevel_def)
  have rs: "resting T' (moved dash b)"
    using s tb bf unfolding resting_def T'_def
    by (simp add: moved_def b_def off_base_def key_up_def seen_def keyed_def)
  have 4: "send_and_receive (Suc fuel) T' (enc_fall S e, (moved dash b)\<lparr> currentTime := S + 21 + int l \<rparr>, out)
        = send_and_receive fuel (T' + 1) (enc_rise T' (enc_fall S e), rise T' (moved dash b), out)"
    using rise_step [OF rs, of out] by (subst sar_step') (simp add: er nr)
  show ?thesis
    unfolding Dk_def [symmetric] fu 1 2 3 comb 4
    by (simp add: T'_def S_def b_def dash_def)
qed

lemma symbol_last:
  assumes e: "sending_at syms k T e" and k: "Suc k = length syms"
    and s: "seen T s" and ti: "tree_inv s" and j: "0 < morseTableJumper s" and tm: "timing s"
    and sp: "enc_dotTime e = dotTime s" "enc_dashTime e = dashTime s"
  shows "send_and_receive (nat (dur e (syms ! k) + dashTime s) + fuel) (T + 1) (e, s, out)
        = Some (out @ [morseTable ! nat (morseTablePointer
                  (moved (syms ! k = CHR ''-'') (off_base T (T + dur e (syms ! k)) s)))])"
proof -
  define Dk where "Dk = dur e (syms ! k)"
  define S where "S = T + Dk"
  define T' where "T' = S + dashTime s"
  define b where "b = off_base T S s"
  define dash where "dash = (syms ! k = CHR ''-'')"
  note tb = timing_bounds [OF tm]
  have "22 \<le> Dk" unfolding Dk_def dur_cases [OF e] using tb sp by simp
  then obtain h where h: "Dk = 22 + int h" by (metis nonneg_int_cases diff_ge_0_iff_ge add.commute diff_add_cancel)
  from tb obtain l where l: "dashTime s = 22 + int l" by (metis nonneg_int_cases diff_ge_0_iff_ge add.commute diff_add_cancel)
  have Sh: "S = T + 22 + int h" by (simp add: S_def h)
  have fu: "nat (Dk + dashTime s) + fuel = (21 + h) + Suc ((21 + l) + Suc fuel)"
    by (simp add: h l)
  have p: "pending dash S b"
    unfolding dash_def S_def b_def Dk_def by (rule symbol_pending [OF e s ti j tm sp])
  have bf: "dotTime b = dotTime s" "wordSpace b = wordSpace s"
    by (simp_all add: b_def off_base_def key_up_def)
  have "poll (key_ticks (T + 1) (21 + h) True @ key_ticks S (22 + Suc l) False) (s, out)
        = silence dash S b out (S + 21 + int (Suc l))"
    unfolding b_def using tb l by (intro pulse_and_gap [OF s Sh p [unfolded b_def]]) simp_all
  also have "\<dots> = ((at_top_of (moved dash b))\<lparr> currentTime := S + 21 + int (Suc l) \<rparr>,
                     out @ [morseTable ! nat (morseTablePointer (moved dash b))])"
    using tb l bf by (simp add: silence_def)
  finally have dec: "snd (poll (key_ticks (T + 1) (21 + h) True @ key_ticks S (22 + Suc l) False) (s, out))
        = out @ [morseTable ! nat (morseTablePointer (moved dash b))]" by simp
  have lv: "outputLevel e" "sendingMorse e" using e by (simp_all add: sending_at_def)
  have 1: "send_and_receive ((21 + h) + Suc ((21 + l) + Suc fuel)) (T + 1) (e, s, out)
        = send_and_receive (Suc ((21 + l) + Suc fuel)) S
            (e, poll (key_ticks (T + 1) (21 + h) True) (s, out))"
    using joint_wait' [OF sending_wait [OF e], where n = "21 + h" and t = "T + 1"
        and fuel = "Suc ((21 + l) + Suc fuel)" and st = "(s, out)"] lv
    by (simp add: Dk_def [symmetric] h S_def ac_simps)
  have ef: "encode S e = enc_fall S e"
    unfolding S_def Dk_def by (rule encode_fall [OF e])
  have nf: "\<not> encoder_available (enc_fall S e)"
    using lv by (simp add: encoder_available_def enc_fall_def)
  have 2: "send_and_receive (Suc ((21 + l) + Suc fuel)) S (e, st)
        = send_and_receive ((21 + l) + Suc fuel) (S + 1) (enc_fall S e, poll_step st (S, False, 0))" for st
    by (subst sar_step') (simp add: ef nf fall_level)
  have 3: "send_and_receive ((21 + l) + Suc fuel) (S + 1) (enc_fall S e, st)
        = send_and_receive (Suc fuel) T' (enc_fall S e, poll (key_ticks (S + 1) (21 + l) False) st)" for st
    using joint_wait' [OF fall_wait [OF e, of S], where n = "21 + l" and t = "S + 1"
        and fuel = "Suc fuel" and st = st] k sp
    by (simp add: l T'_def fall_level ac_simps)
  have ed: "encode T' (enc_fall S e) = enc_done T' (enc_fall S e)"
    unfolding T'_def using encode_done [OF e k, of S] sp by simp
  have lvd: "\<not> outputLevel (enc_done T' (enc_fall S e))"
    by (simp add: outputLevel_def enc_done_def enc_fall_def)
  have 4: "send_and_receive (Suc fuel) T' (enc_fall S e, st) = Some (snd (poll_step st (T', False, 0)))" for st
    by (subst sar_step') (simp add: ed done_available lvd)
  have T'l: "T' = S + 1 + int (21 + l)" by (simp add: T'_def l)
  have comb: "poll_step (poll (key_ticks (S + 1) (21 + l) False)
                (poll_step (poll (key_ticks (T + 1) (21 + h) True) (s, out)) (S, False, 0))) (T', False, 0)
              = poll (key_ticks (T + 1) (21 + h) True @ key_ticks S (22 + Suc l) False) (s, out)"
    using key_ticks_Cons [of S "21 + Suc l" False] key_ticks_Suc [of "S + 1" "21 + l" False]
    by (simp add: poll_append poll_Cons T'l)
  show ?thesis
    unfolding Dk_def [symmetric] fu 1 2 3 4 comb dec
    by (simp add: S_def b_def dash_def)
qed

lemma next_state:
  fixes S :: int and dash :: bool
  assumes s: "seen T s" and ti: "tree_inv s" and j: "0 < morseTableJumper s" and tm: "timing s"
  defines "s' \<equiv> rise (S + dotTime s) (moved dash (off_base T S s))"
  shows "seen (S + dotTime s) s'" "tree_inv s'" "timing s'"
    "dotTime s' = dotTime s" "dashTime s' = dashTime s"
    "morseTableJumper s' = morseTableJumper s div 2"
    "morseTablePointer s' = (if dash then morseTablePointer s + morseTableJumper s
                             else morseTablePointer s - morseTableJumper s)"
proof -
  note tb = timing_bounds [OF tm]
  have rs: "resting (S + dotTime s) (moved dash (off_base T S s))"
    using s tb unfolding resting_def
    by (simp add: moved_def off_base_def key_up_def seen_def keyed_def)
  show "seen (S + dotTime s) s'" unfolding s'_def by (rule rise_seen [OF rs])
  show "dotTime s' = dotTime s" "dashTime s' = dashTime s" "timing s'"
    "morseTableJumper s' = morseTableJumper s div 2"
    "morseTablePointer s' = (if dash then morseTablePointer s + morseTableJumper s
                             else morseTablePointer s - morseTableJumper s)"
    using tm by (simp_all add: s'_def rise_def moved_def off_base_def key_up_def timing_def)
  then show "tree_inv s'"
    using tree_ok_move [of "morseTableJumper s" "morseTablePointer s"] ti j
    by (simp add: tree_inv_def)
qed

lemma send_rest:
  assumes "sending_at syms k T e" and "seen T s" and "tree_inv s"
    and "2 ^ (length syms - Suc k) \<le> morseTableJumper s" and "timing s"
    and "enc_dotTime e = dotTime s" and "enc_dashTime e = dashTime s"
  shows "send_and_receive (nat (ticks_left (dotTime s) (dashTime s) (drop k syms)) + fuel) (T + 1) (e, s, out)
        = Some (out @ [morseTable ! nat (walk (morseTableJumper s) (morseTablePointer s) (drop k syms))])"
  using assms
proof (induction "length syms - k" arbitrary: k T e s)
  case 0
  then show ?case by (simp add: sending_at_def)
next
  case (Suc n)
  note e = Suc.prems(1) and s = Suc.prems(2) and ti = Suc.prems(3) and tm = Suc.prems(5)
    and sp = Suc.prems(6,7)
  from e have kl: "k < length syms" by (simp add: sending_at_def)
  have j: "0 < morseTableJumper s"
    using Suc.prems(4) by (intro less_le_trans [OF _ Suc.prems(4)]) simp
  have dk: "drop k syms = syms ! k # drop (Suc k) syms"
    using kl by (simp add: Cons_nth_drop_Suc)
  note tb = timing_bounds [OF tm]
  have du: "dur e (syms ! k) = (if syms ! k = CHR ''-'' then dashTime s else dotTime s)"
    using dur_cases [OF e] sp by simp
  show ?case
  proof (cases "Suc k = length syms")
    case True
    then have d: "drop k syms = [syms ! k]" using dk by simp
    have "morseTablePointer (moved (syms ! k = CHR ''-'') (off_base T (T + dur e (syms ! k)) s))
          = walk (morseTableJumper s) (morseTablePointer s) [syms ! k]"
      by (simp add: moved_def off_base_def key_up_def)
    with symbol_last [OF e True s ti j tm sp, of fuel out] show ?thesis
      unfolding d by (simp add: du)
  next
    case False
    with kl have k2: "Suc k < length syms" by simp
    define T' where "T' = T + dur e (syms ! k) + dotTime s"
    define e' where "e' = enc_rise T' (enc_fall (T + dur e (syms ! k)) e)"
    define s' where "s' = rise T' (moved (syms ! k = CHR ''-'') (off_base T (T + dur e (syms ! k)) s))"
    note ns = next_state [OF s ti j tm, of "T + dur e (syms ! k)" "syms ! k = CHR ''-''",
        folded T'_def, folded s'_def]
    have e1: "sending_at syms (Suc k) T' e'"
      unfolding e'_def by (rule rise_sending [OF e k2])
    have sp1: "enc_dotTime e' = dotTime s'" "enc_dashTime e' = dashTime s'"
      using sp ns(4,5) by (simp_all add: e'_def enc_rise_def enc_fall_def)
    have "2 ^ (length syms - Suc k) = (2::int) * 2 ^ (length syms - Suc (Suc k))"
      using k2 by (metis Suc_diff_Suc power_Suc)
    with Suc.prems(4) have j1: "2 ^ (length syms - Suc (Suc k)) \<le> morseTableJumper s'"
      unfolding ns(6) by simp
    have n: "n = length syms - Suc k" using Suc.hyps(2) by simp
    have d2: "drop (Suc k) syms \<noteq> []" using k2 by simp
    have tl: "ticks_left (dotTime s) (dashTime s) (drop k syms)
            = dur e (syms ! k) + dotTime s + ticks_left (dotTime s) (dashTime s) (drop (Suc k) syms)"
      unfolding dk using d2 by (cases "drop (Suc k) syms") (simp_all add: du)
    have nn: "0 \<le> ticks_left d D cs" if "0 \<le> d" "0 \<le> D" for d D cs
      using that by (induction d D cs rule: ticks_left.induct) simp_all
    have fu: "nat (ticks_left (dotTime s) (dashTime s) (drop k syms)) + fuel
        = nat (dur e (syms ! k) + dotTime s)
          + (nat (ticks_left (dotTime s) (dashTime s) (drop (Suc k) syms)) + fuel)"
      unfolding tl using tb nn [of "dotTime s" "dashTime s" "drop (Suc k) syms"]
      by (simp add: du nat_add_distrib)
    have "send_and_receive (nat (ticks_left (dotTime s) (dashTime s) (drop k syms)) + fuel) (T + 1) (e, s, out)
        = send_and_receive (nat (ticks_left (dotTime s) (dashTime s) (drop (Suc k) syms)) + fuel) (T' + 1) (e', s', out)"
      unfolding fu e'_def s'_def T'_def by (rule symbol_inner [OF e k2 s ti j tm sp])
    also have "\<dots> = Some (out @ [morseTable ! nat (walk (morseTableJumper s') (morseTablePointer s')
                                                    (drop (Suc k) syms))])"
      using Suc.hyps(1) [OF n e1 ns(1) ns(2) j1 ns(3) sp1] ns(4,5) by simp
    finally show ?thesis
      unfolding dk by (simp add: ns(6,7))
  qed
qed

lemma all_positions: "list_all pos_ok ([1..63] @ [65..127])"
  by code_simp

lemma pos_ok_range:
  assumes "1 \<le> pos" "pos \<le> 127" "pos \<noteq> 64"
  shows "pos_ok pos"
proof -
  from assms have "pos \<in> {1..63} \<union> {65..127}" by auto
  then have "pos \<in> set ([1..63] @ [65..127])" by (simp only: set_append set_upto)
  with all_positions show ?thesis by (simp only: list_all_iff)
qed

lemma scan_table_found:
  assumes "0 \<le> i" and "i \<le> k" and "k < morseTableLength" and "morseTable ! nat k = c"
  shows "i \<le> scan_table c i \<and> scan_table c i < morseTableLength
         \<and> morseTable ! nat (scan_table c i) = c"
  using assms
proof (induction c i rule: scan_table.induct)
  case (1 c i)
  from "1.prems" have il: "i < morseTableLength" by simp
  show ?case
  proof (cases "morseTable ! nat i = c")
    case True
    with il show ?thesis by (subst (1 2 3) scan_table.simps) simp
  next
    case False
    with "1.prems" have "i \<noteq> k" by auto
    with "1.prems" have "0 \<le> i + 1" "i + 1 \<le> k" by simp_all
    from "1.IH" [OF il False this "1.prems"(3,4)] il False show ?thesis
      by (subst (1 2 3) scan_table.simps) simp
  qed
qed

lemma scan_table_member:
  assumes "c \<in> set morseTable"
  shows "0 \<le> scan_table c 0 \<and> scan_table c 0 < 127 \<and> morseTable ! nat (scan_table c 0) = c"
proof -
  from assms obtain k where k: "k < length morseTable" "morseTable ! k = c"
    by (auto simp: in_set_conv_nth)
  then have "int k < morseTableLength" "morseTable ! nat (int k) = c"
    by (simp_all add: length_morseTable morseTableLength_def morseTreetop_def)
  from scan_table_found [OF _ _ this, of 0] show ?thesis
    by (simp add: morseTableLength_def morseTreetop_def)
qed

lemma nth63: "morseTable ! 63 = CHR '' ''"
  by (simp add: morseTable_def)

lemma capitals: "list_all (\<lambda>c. c = CHR ''_'' \<or> to_capital c = c) morseTable"
  by code_simp

lemma signals_of_ok:
  assumes "c \<in> set morseTable" and "c \<noteq> CHR '' ''"
  shows "signals_of c \<noteq> []" "length (signals_of c) \<le> 6"
    "set (signals_of c) \<subseteq> {CHR ''.'', CHR ''-''}"
    "morseTable ! nat (walk 32 63 (signals_of c)) = c"
proof -
  define pos where "pos = scan_table c 0 + 1"
  define lvl where "lvl = find_level pos 0"
  define n where "n = int morseTreeLevels - int lvl"
  note m = scan_table_member [OF assms(1)]
  have "scan_table c 0 \<noteq> 63" using m nth63 assms(2) by auto
  with m have "pos_ok pos" unfolding pos_def by (intro pos_ok_range) simp_all
  then obtain p sigPos str where t: "trace_path lvl n pos 0 (replicate 7 (CHR 0x00)) = (p, sigPos, str)"
    and f: "0 < n" "list_all (\<lambda>x. x = CHR ''.'' \<or> x = CHR ''-'') (take (nat n) str)"
      "walk 32 63 (take (nat n) str) = pos - 1" "length str = 7"
    unfolding pos_ok_def Let_def lvl_def [symmetric] n_def [symmetric]
    by (cases "trace_path lvl n pos 0 (replicate 7 (CHR 0x00))") auto
  have so: "signals_of c = take (nat n) str"
    unfolding signals_of_def Let_def pos_def [symmetric] lvl_def [symmetric] n_def [symmetric] t
    by simp
  have "n \<le> 6" unfolding n_def by (simp add: morseTreeLevels_def)
  with f show "signals_of c \<noteq> []" "length (signals_of c) \<le> 6"
    unfolding so by auto
  from f(2) show "set (signals_of c) \<subseteq> {CHR ''.'', CHR ''-''}"
    unfolding so by (auto simp: list_all_iff)
  from f(3) m show "morseTable ! nat (walk 32 63 (signals_of c)) = c"
    unfolding so pos_def by simp
qed

lemma div_less_3:
  fixes x w :: int
  assumes "0 < w" "x < 3 * w"
  shows "x div w < 3"
proof (rule ccontr)
  assume "\<not> x div w < 3"
  then have "3 \<le> x div w" by simp
  then have "w * 3 \<le> w * (x div w)" using assms(1) by (intro mult_left_mono) simp_all
  moreover have "x = w * (x div w) + x mod w" by simp
  moreover have "0 \<le> x mod w" using assms(1) by simp
  ultimately show False using assms(2) by linarith
qed

lemma div_times_upper:
  fixes a w :: int
  assumes "0 < w" "0 \<le> a"
  shows "(3 * a) div w \<le> 3 * (a div w) + 2"
proof -
  have "3 * a = 3 * (a mod w) + (3 * (a div w)) * w"
    using mult_div_mod_eq [of w a] by (metis add.commute distrib_left mult.assoc mult.commute)
  then have "(3 * a) div w = (3 * (a mod w) + (3 * (a div w)) * w) div w" by simp
  also have "\<dots> = 3 * (a div w) + (3 * (a mod w)) div w"
    using assms(1) by (simp only: div_mult_self1)
  finally have e: "(3 * a) div w = 3 * (a div w) + (3 * (a mod w)) div w" .
  have "a mod w < w" using assms(1) by simp
  then have "3 * (a mod w) < 3 * w" by simp
  then have "(3 * (a mod w)) div w < 3" using assms(1) by (intro div_less_3)
  with e show ?thesis by simp
qed

lemma timing_setspeed:
  assumes "v \<le> 54"
  shows "timing (decoder_setspeed v s)"
proof -
  define w where "w = (if v \<le> 0 then 1 else v)"
  have w: "0 < w" "w \<le> 54" using assms by (simp_all add: w_def)
  have f: "dotTime (decoder_setspeed v s) = 1200 div w"
    "dashTime (decoder_setspeed v s) = 3 * 1200 div w"
    "wordSpace (decoder_setspeed v s) = 7 * 1200 div w"
    by (simp_all add: decoder_setspeed_def w_def Let_def)
  have "1200 div 54 \<le> 1200 div w" using w by (intro zdiv_mono2) simp_all
  then have 1: "22 \<le> 1200 div w" by simp
  have 2: "3 * (1200 div w) \<le> 3 * 1200 div w" using w by (intro times_div_le) simp_all
  have 3: "3 * 1200 div w \<le> 3 * (1200 div w) + 2" using w by (intro div_times_upper) simp_all
  have 4: "7 * (1200 div w) \<le> 7 * 1200 div w" using w by (intro times_div_le) simp_all
  show ?thesis unfolding timing_def f using 1 2 3 4 by simp
qed

lemma ticks_left_bound:
  assumes "0 \<le> d" and "d \<le> D" and "cs \<noteq> []"
  shows "ticks_left d D cs \<le> (int (length cs) + 1) * D + (int (length cs) - 1) * d"
  using assms
proof (induction d D cs rule: ticks_left.induct)
  case (1 d D)
  then show ?case by simp
next
  case (2 d D c)
  then show ?case by simp
next
  case (3 d D c v va)
  then have "ticks_left d D (v # va) \<le> (int (length (v # va)) + 1) * D + (int (length (v # va)) - 1) * d"
    by simp
  with 3(2,3) show ?case by (simp add: algebra_simps)
qed

lemma ticks_left_enough:
  assumes "0 \<le> d" and "d \<le> D" and "cs \<noteq> []" and "length cs \<le> 6"
  shows "ticks_left d D cs \<le> 7 * D + 5 * d"
proof -
  have a: "(int (length cs) + 1) * D \<le> 7 * D"
    using assms by (intro mult_right_mono) simp_all
  have b: "(int (length cs) - 1) * d \<le> 5 * d"
    using assms by (intro mult_right_mono) simp_all
  from ticks_left_bound [OF assms(1-3)] a b show ?thesis by linarith
qed

lemma start_character_sending:
  assumes c: "c \<in> set morseTable" "c \<noteq> CHR '' ''" "to_capital c = c"
    and e: "encodeMorseChar e = c" "morseSignalString e = replicate 7 (CHR 0x00)"
      "enc_currentTime e = t0"
  shows "sending_at (signals_of c) 0 t0 (start_character e)"
    and "enc_dotTime (start_character e) = enc_dotTime e"
    and "enc_dashTime (start_character e) = enc_dashTime e"
    and "enc_currentTime (start_character e) = t0"
proof -
  define pos where "pos = scan_table c 0 + 1"
  define lvl where "lvl = find_level pos 0"
  define n where "n = int morseTreeLevels - int lvl"
  note m = scan_table_member [OF c(1)]
  have "scan_table c 0 \<noteq> 63" using m nth63 c(2) by auto
  with m have "pos_ok pos" unfolding pos_def by (intro pos_ok_range) simp_all
  then obtain p sigPos str where t: "trace_path lvl n pos 0 (replicate 7 (CHR 0x00)) = (p, sigPos, str)"
    and f: "0 < n" "list_all (\<lambda>x. x = CHR ''.'' \<or> x = CHR ''-'') (take (nat n) str)"
      "length str = 7" "sigPos = n"
    unfolding pos_ok_def Let_def lvl_def [symmetric] n_def [symmetric]
    by (cases "trace_path lvl n pos 0 (replicate 7 (CHR 0x00))") auto
  have so: "signals_of c = take (nat n) str"
    unfolding signals_of_def Let_def pos_def [symmetric] lvl_def [symmetric] n_def [symmetric] t
    by simp
  have n6: "n \<le> 6" unfolding n_def by (simp add: morseTreeLevels_def)
  have s0: "str ! 0 = CHR ''.'' \<or> str ! 0 = CHR ''-''"
    using f(1,2,3) by (cases str) (auto simp: take_Cons')
  note t' = t [unfolded n_def lvl_def pos_def]
  have np: "0 < int morseTreeLevels - int (find_level (scan_table c 0 + 1) 0)"
    using f(1) unfolding n_def lvl_def pos_def .
  let ?e5 = "e\<lparr> encodeMorseChar := c, morseSignals := n, morseSignalPos := n,
                 morseSignalString := str[nat n := CHR 0x00], sendingMorse := True,
                 sendingMorseSignalNr := 0, sendMorseTimer := t0 \<rparr>"
  have "str[nat n := CHR 0x00] ! 0 = str ! 0" using f(1) by simp
  with s0 have s1: "str[nat n := CHR 0x00] ! 0 \<noteq> CHR '' ''" by auto
  have sc: "start_character e = digitalWrite True ?e5"
    using s1 np unfolding n_def lvl_def pos_def
    by (simp add: start_character_def Let_def e c(3) t' f(4) [unfolded n_def lvl_def pos_def])
  have len: "length (take (nat n) str) = nat n" using f(3) n6 by simp
  have st: "set (take (nat n) str) \<subseteq> {CHR ''.'', CHR ''-''}"
    using f(2) unfolding list_all_iff by blast
  have tk: "take (nat n) (str[nat n := CHR 0x00]) = take (nat n) str" by simp
  have nn: "int (nat n) = n" "0 < nat n" "nat n < 7" using f(1) n6 by simp_all
  show "sending_at (signals_of c) 0 t0 (start_character e)"
    unfolding sc so sending_at_def len
    using f(1) by (simp add: digitalWrite_def outputLevel_def tk nn st f(3))
  show "enc_dotTime (start_character e) = enc_dotTime e"
    "enc_dashTime (start_character e) = enc_dashTime e"
    "enc_currentTime (start_character e) = t0"
    unfolding sc by (simp_all add: digitalWrite_def e)
qed

lemma table_member_not_nul: "c \<in> set morseTable \<Longrightarrow> c \<noteq> CHR 0x00"
  by (auto simp: in_set_conv_nth length_morseTable table_no_nul)

lemma table_member_capital:
  assumes "c \<in> set morseTable" and "c \<noteq> CHR ''_''"
  shows "to_capital c = c"
  using capitals assms unfolding list_all_iff by blast

lemma encode_start:
  assumes c: "c \<in> set morseTable" "c \<noteq> CHR '' ''" "c \<noteq> CHR ''_''"
    and e: "\<not> sendingMorse e" "encodeMorseChar e = c"
      "morseSignalString e = replicate 7 (CHR 0x00)" "1 \<le> enc_dotTime e" "1 \<le> enc_dashTime e"
  shows "encode t0 e = start_character (e\<lparr> enc_currentTime := t0 \<rparr>)"
    and "sending_at (signals_of c) 0 t0 (start_character (e\<lparr> enc_currentTime := t0 \<rparr>))"
    and "enc_dotTime (start_character (e\<lparr> enc_currentTime := t0 \<rparr>)) = enc_dotTime e"
    and "enc_dashTime (start_character (e\<lparr> enc_currentTime := t0 \<rparr>)) = enc_dashTime e"
proof -
  let ?e = "e\<lparr> enc_currentTime := t0 \<rparr>"
  have ef: "encodeMorseChar ?e = c" "morseSignalString ?e = replicate 7 (CHR 0x00)"
    "enc_currentTime ?e = t0"
    using e by simp_all
  note st = start_character_sending [OF c(1,2) table_member_capital [OF c(1,3)] ef]
  from st(1) show sa: "sending_at (signals_of c) 0 t0 (start_character ?e)" .
  from st(2,3) show d: "enc_dotTime (start_character ?e) = enc_dotTime e"
    "enc_dashTime (start_character ?e) = enc_dashTime e" by simp_all
  have "1 \<le> dur (start_character ?e) (signals_of c ! 0)"
    using e(4,5) d by (simp add: dur_def)
  with st(4) have "enc_currentTime (start_character ?e) \<le> t0 + dur (start_character ?e) (signals_of c ! 0) - 1"
    by simp
  from send_signal_wait [OF sending_wait [OF sa] this]
  have w: "send_signal (start_character ?e) = start_character ?e" .
  have sm: "sendingMorse (start_character ?e)" using sa by (simp add: sending_at_def)
  have a: "(\<not> sendingMorse ?e \<and> encodeMorseChar ?e \<noteq> CHR 0x00) = True"
    using e(1,2) table_member_not_nul [OF c(1)] by simp
  have b: "sendingMorse (start_character ?e) = True" using sm by simp
  show "encode t0 e = start_character ?e"
    unfolding encode_def Let_def a if_True b w ..
qed

lemma send_and_receive_character:
  assumes c: "c \<in> set morseTable" "c \<noteq> CHR '' ''" "c \<noteq> CHR ''_''" "c \<noteq> CHR ''*''"
    and e: "\<not> sendingMorse e" "morseSignalString e = replicate 7 (CHR 0x00)"
      "enc_dotTime e = dotTime s" "enc_dashTime e = dashTime s"
    and s: "resting t0 s" "morseTableJumper s = 32" "morseTablePointer s = 63" "timing s"
    and n: "nat (7 * dashTime s + 5 * dotTime s) < n"
  shows "send_and_receive n t0 (encoder_write c e, s, out) = Some (out @ [c])"
proof -
  define e0 where "e0 = encoder_write c e"
  define e1 where "e1 = start_character (e0\<lparr> enc_currentTime := t0 \<rparr>)"
  define syms where "syms = signals_of c"
  note tb = timing_bounds [OF s(4)]
  have e0: "e0 = e\<lparr> encodeMorseChar := c \<rparr>"
    using e(1) c(4) by (simp add: e0_def encoder_write_def)
  have e0f: "\<not> sendingMorse e0" "encodeMorseChar e0 = c"
    "morseSignalString e0 = replicate 7 (CHR 0x00)" "1 \<le> enc_dotTime e0" "1 \<le> enc_dashTime e0"
    using e tb by (simp_all add: e0)
  note es = encode_start [OF c(1-3) e0f, of t0, folded e1_def syms_def]
  have sp: "enc_dotTime e1 = dotTime (rise t0 s)" "enc_dashTime e1 = dashTime (rise t0 s)"
    using es(3,4) e(3,4) by (simp_all add: e0 rise_def)
  note so = signals_of_ok [OF c(1,2), folded syms_def]
  have lv: "outputLevel e1" and sm: "sendingMorse e1" using es(2) by (simp_all add: sending_at_def)
  have na: "\<not> encoder_available e1" using sm by (simp add: encoder_available_def)
  have ti: "tree_inv (rise t0 s)"
    using s(2,3) tree_ok_top by (simp add: tree_inv_def rise_def morseTreetop_def)
  have rf: "morseTableJumper (rise t0 s) = 32" "morseTablePointer (rise t0 s) = 63"
    "dotTime (rise t0 s) = dotTime s" "dashTime (rise t0 s) = dashTime s"
    using s(2,3) by (simp_all add: rise_def)
  have tm: "timing (rise t0 s)" using s(4) by (simp add: timing_def rise_def)
  have "(2::int) ^ (length syms - Suc 0) \<le> 2 ^ 5"
    using so(2) by (intro power_increasing) simp_all
  then have j: "2 ^ (length syms - Suc 0) \<le> morseTableJumper (rise t0 s)"
    unfolding rf by simp
  have "ticks_left (dotTime s) (dashTime s) syms \<le> 7 * dashTime s + 5 * dotTime s"
    using tb so(1,2) by (intro ticks_left_enough) simp_all
  then have "nat (ticks_left (dotTime s) (dashTime s) syms) < n" using n by linarith
  then obtain fuel where fu: "n = Suc (nat (ticks_left (dotTime s) (dashTime s) syms) + fuel)"
    using less_iff_Suc_add by auto
  have "send_and_receive n t0 (e0, s, out)
        = send_and_receive (nat (ticks_left (dotTime s) (dashTime s) syms) + fuel) (t0 + 1)
            (e1, rise t0 s, out)"
    unfolding fu by (subst sar_step') (simp add: es(1) na lv rise_step [OF s(1)])
  also have "\<dots> = Some (out @ [morseTable ! nat (walk 32 63 syms)])"
    using send_rest [OF es(2) rise_seen [OF s(1)] ti j tm sp, of fuel out]
    by (simp add: rf)
  finally show ?thesis unfolding e0_def so(4) .
qed

subsection \<open>The state before the error mark\<close>


section \<open>The claims\<close>

text \<open>
  C1: a character of the table other than the filler \<open>*\<close>, the space and the underscore is
  written to a new encoder; encoder and decoder are set to the same speed of at most 54
  words per minute (a value of 0 or less counts as 1), the decoder reads a key, active
  high, on the wire of the encoder, and the loop calls both once per millisecond from any
  time \<open>t0\<close>. Then the loop ends within \<open>enough_ticks\<close> turns, and the decoder has returned
  exactly that character, once.
\<close>

theorem C1_round_trip:
  assumes "v \<le> 54" and "c \<in> set morseTable" and "c \<notin> {CHR ''*'', CHR '' '', CHR ''_''}"
    and "enough_ticks v \<le> n"
  shows "roundtrip v c t0 n = Some [c]"
proof -
  define w where "w = (if v \<le> 0 then 1 else v)"
  let ?e = "encoder_setspeed v (new_morseEncoder 0)"
  let ?s = "decoder_setspeed v (new_morseDecoder 0 False False)"
  have e: "\<not> sendingMorse ?e" "morseSignalString ?e = replicate 7 (CHR 0x00)"
    "enc_dotTime ?e = dotTime ?s" "enc_dashTime ?e = dashTime ?s"
    by (simp_all add: encoder_setspeed_def decoder_setspeed_def new_morseEncoder_def
        new_morseDecoder_def Let_def)
  have s: "resting t0 ?s" "morseTableJumper ?s = 32" "morseTablePointer ?s = 63"
    by (simp_all add: resting_def keyed_def decoder_setspeed_def new_morseDecoder_def Let_def
        morseTreetop_def)
  have d: "dotTime ?s = 1200 div w" "dashTime ?s = 3600 div w"
    by (simp_all add: decoder_setspeed_def w_def Let_def)
  have n: "nat (7 * dashTime ?s + 5 * dotTime ?s) < n"
    using assms(4) unfolding d enough_ticks_def w_def [symmetric] by simp
  from assms(3) have c: "c \<noteq> CHR '' ''" "c \<noteq> CHR ''_''" "c \<noteq> CHR ''*''" by simp_all
  from send_and_receive_character [OF assms(2) c e s timing_setspeed [OF assms(1)] n, of "[]"]
  show ?thesis by (simp add: roundtrip_def)
qed

theorem C1_round_trip_witness:
  "roundtrip 13 CHR ''E'' 1000 3000 = Some ''E''"
proof -
  have "CHR ''E'' \<in> set morseTable" by (simp add: morseTable_def)
  moreover have "enough_ticks 13 \<le> 3000" by (simp add: enough_ticks_def)
  ultimately show ?thesis
    using C1_round_trip [of 13 "CHR ''E''" 3000 1000] by simp
qed

text \<open>
  The space is a character of the table and not the filler; sent at 54 words per minute it
  is a pause with no signal, and the decoder, which writes a space only after a signal,
  returns nothing. At 55 words per minute the dot lasts 21 ms and does not outlast the
  debounce delay: the letter \<open>E\<close> is lost.
\<close>

theorem C1_counterexample:
  "CHR '' '' \<in> set morseTable \<and> CHR '' '' \<noteq> CHR ''*'' \<and>
   roundtrip 54 CHR '' '' 0 100 = Some [] \<and>
   CHR ''E'' \<in> set morseTable \<and>
   roundtrip 55 CHR ''E'' 0 100 = Some []"
  by code_simp

text \<open>
  C2: a call of \<open>decode\<close> that finds the signal off and the character write due
  leaves in \<open>decodedMorseChar\<close> the space when the space write is due in the same call,
  and the table character otherwise: the space is written after the character and
  overwrites it.
\<close>

theorem C2_space_overwrites_character:
  assumes "s1 = read_signals level sample (s\<lparr> currentTime := t \<rparr>)"
    and "s2 = classify_pulse s1"
    and "\<not> morseSignalState s1"
    and "currentTime s2 - spaceTime s2 \<ge> dotTime s2 * 2
         \<and> morseTableJumper s2 < (morseTreetop + 1) div 2"
  shows "decodedMorseChar (decode t level sample s) =
           (if currentTime s2 - spaceTime s2 > wordSpace s2 * 2 div 3 \<and> morseSpace s2 = False
            then CHR '' '' else morseTable ! nat (morseTablePointer s2))"
proof -
  have "decode t level sample s =
          (write_space (write_character s2))
            \<lparr> lastKeyerState := morseKeyer (write_space (write_character s2)) \<rparr>"
    using assms(1-3) by (simp add: decode_def Let_def)
  then show ?thesis
    using assms(4) by (simp add: write_space_def write_character_def)
qed

text \<open>
  At \<open>c2_state\<close> both writes are due at 1000 ms; the character is \<open>E\<close> and the
  slot holds the space.
\<close>

theorem C2_space_overwrites_character_witness:
  "decodedMorseChar (decode 1000 False 0 c2_state) = CHR '' ''"
proof -
  have "\<not> morseSignalState (read_signals False 0 (c2_state\<lparr> currentTime := 1000 \<rparr>))"
    by (simp add: c2_state_eq decode_defs new_morseDecoder_def)
  moreover have
    "currentTime (classify_pulse (read_signals False 0 (c2_state\<lparr> currentTime := 1000 \<rparr>)))
       - spaceTime (classify_pulse (read_signals False 0 (c2_state\<lparr> currentTime := 1000 \<rparr>)))
       \<ge> dotTime (classify_pulse (read_signals False 0 (c2_state\<lparr> currentTime := 1000 \<rparr>))) * 2
     \<and> morseTableJumper (classify_pulse (read_signals False 0 (c2_state\<lparr> currentTime := 1000 \<rparr>)))
       < (morseTreetop + 1) div 2"
    by (simp add: c2_state_eq decode_defs new_morseDecoder_def)
  ultimately have "decodedMorseChar (decode 1000 False 0 c2_state) =
      (if currentTime (classify_pulse (read_signals False 0 (c2_state\<lparr> currentTime := 1000 \<rparr>)))
            - spaceTime (classify_pulse (read_signals False 0 (c2_state\<lparr> currentTime := 1000 \<rparr>)))
            > wordSpace (classify_pulse (read_signals False 0 (c2_state\<lparr> currentTime := 1000 \<rparr>))) * 2 div 3
          \<and> morseSpace (classify_pulse (read_signals False 0 (c2_state\<lparr> currentTime := 1000 \<rparr>))) = False
       then CHR '' ''
       else morseTable ! nat (morseTablePointer
              (classify_pulse (read_signals False 0 (c2_state\<lparr> currentTime := 1000 \<rparr>)))))"
    by (rule C2_space_overwrites_character [OF refl refl])
  then show ?thesis
    by (simp add: c2_state_eq decode_defs new_morseDecoder_def)
qed

text \<open>
  The same call, against the claim as stated: the character write and the space write are
  both due, the character is \<open>E\<close>, and the slot holds the space.
\<close>

theorem C2_counterexample:
  "currentTime (classify_pulse (read_signals False 0 (c2_state\<lparr> currentTime := 1000 \<rparr>)))
     - spaceTime (classify_pulse (read_signals False 0 (c2_state\<lparr> currentTime := 1000 \<rparr>)))
     \<ge> dotTime (classify_pulse (read_signals False 0 (c2_state\<lparr> currentTime := 1000 \<rparr>))) * 2 \<and>
   morseTableJumper (classify_pulse (read_signals False 0 (c2_state\<lparr> currentTime := 1000 \<rparr>)))
     < (morseTreetop + 1) div 2 \<and>
   morseTable ! nat (morseTablePointer (classify_pulse (read_signals False 0 (c2_state\<lparr> currentTime := 1000 \<rparr>))))
     = CHR ''E'' \<and>
   decodedMorseChar (decode 1000 False 0 c2_state) = CHR '' ''"
  by (simp add: c2_state_eq decode_defs new_morseDecoder_def nth31)

text \<open>
  C3: for a speed set with a value of at most 900 words per minute, a pulse ready to be
  classified moves the pointer as a dot when it lasts \<open>dotTime/4 + 1\<close> or
  \<open>dashTime/2 - 1\<close>, as a dash when it lasts \<open>dashTime/2 + 1\<close>, and leaves the state
  as it is when it lasts \<open>dashTime + dotTime + 1\<close>.
\<close>

theorem C3_pulse_boundaries:
  assumes "1 \<le> wpm s" and "wpm s \<le> 900"
    and "dotTime s = 1200 div wpm s" and "dashTime s = 3 * 1200 div wpm s"
    and "\<not> gotLastSig s" and "morseTableJumper s > 0"
    and "currentTime s - spaceTime s > dotTime s div 2"
  shows
    "(spaceTime s - markTime s = dotTime s div 4 + 1 \<longrightarrow>
        classify_pulse s = s\<lparr> morseTablePointer := morseTablePointer s - morseTableJumper s,
                               morseTableJumper := morseTableJumper s div 2,
                               gotLastSig := True \<rparr>) \<and>
     (spaceTime s - markTime s = dashTime s div 2 - 1 \<longrightarrow>
        classify_pulse s = s\<lparr> morseTablePointer := morseTablePointer s - morseTableJumper s,
                               morseTableJumper := morseTableJumper s div 2,
                               gotLastSig := True \<rparr>) \<and>
     (spaceTime s - markTime s = dashTime s div 2 + 1 \<longrightarrow>
        classify_pulse s = s\<lparr> morseTablePointer := morseTablePointer s + morseTableJumper s,
                               morseTableJumper := morseTableJumper s div 2,
                               gotLastSig := True \<rparr>) \<and>
     (spaceTime s - markTime s = dashTime s + dotTime s + 1 \<longrightarrow> classify_pulse s = s)"
proof -
  define d where "d = dotTime s"
  define D where "D = dashTime s"
  have b: "1 \<le> d" "4 \<le> D" "3 * d \<le> D"
    using speed_bounds [OF assms(1,2)] assms(3,4) by (simp_all add: d_def D_def)
  have a: "d div 4 + 1 > d div 4 \<and> d div 4 + 1 < D div 2" using b by linarith
  have b1: "D div 2 - 1 > d div 4 \<and> D div 2 - 1 < D div 2" using b by linarith
  have c: "D div 2 + 1 > d div 4 \<and> \<not> D div 2 + 1 < D div 2 \<and> D div 2 + 1 < D + d"
    using b by linarith
  have e: "D + d + 1 > d div 4 \<and> \<not> D + d + 1 < D div 2 \<and> \<not> D + d + 1 < D + d"
    using b by linarith
  show ?thesis
    using assms(5-7) a b1 c e unfolding classify_pulse_def d_def D_def by simp
qed

theorem C3_pulse_boundaries_witness:
  "spaceTime c3_state_w - markTime c3_state_w = dashTime c3_state_w div 2 - 1 \<and>
   morseTablePointer (classify_pulse c3_state_w) = 31 \<and>
   morseTableJumper (classify_pulse c3_state_w) = 16 \<and>
   gotLastSig (classify_pulse c3_state_w)"
proof -
  have "1 \<le> wpm c3_state_w" "wpm c3_state_w \<le> 900"
    "dotTime c3_state_w = 1200 div wpm c3_state_w" "dashTime c3_state_w = 3 * 1200 div wpm c3_state_w"
    "\<not> gotLastSig c3_state_w" "morseTableJumper c3_state_w > 0"
    "currentTime c3_state_w - spaceTime c3_state_w > dotTime c3_state_w div 2"
    by (simp_all add: c3_state_w_def new_morseDecoder_def morseTreetop_def)
  from C3_pulse_boundaries [OF this]
  have "spaceTime c3_state_w - markTime c3_state_w = dashTime c3_state_w div 2 - 1 \<longrightarrow>
        classify_pulse c3_state_w = c3_state_w\<lparr> morseTablePointer := morseTablePointer c3_state_w - morseTableJumper c3_state_w,
                               morseTableJumper := morseTableJumper c3_state_w div 2,
                               gotLastSig := True \<rparr>" by blast
  moreover have "spaceTime c3_state_w - markTime c3_state_w = dashTime c3_state_w div 2 - 1"
    by (simp add: c3_state_w_def new_morseDecoder_def)
  ultimately have "classify_pulse c3_state_w = c3_state_w\<lparr> morseTablePointer := morseTablePointer c3_state_w - morseTableJumper c3_state_w,
                               morseTableJumper := morseTableJumper c3_state_w div 2,
                               gotLastSig := True \<rparr>" by blast
  then show ?thesis
    by (simp add: c3_state_w_def new_morseDecoder_def morseTreetop_def)
qed

text \<open>
  At 901 words per minute \<open>dashTime/2 - 1\<close> is 0, and a pulse of that length is not
  taken as a dot.
\<close>

theorem C3_counterexample:
  "\<not> gotLastSig c3_state_a \<and> morseTableJumper c3_state_a > 0 \<and>
   currentTime c3_state_a - spaceTime c3_state_a > dotTime c3_state_a div 2 \<and>
   spaceTime c3_state_a - markTime c3_state_a = dashTime c3_state_a div 2 - 1 \<and>
   classify_pulse c3_state_a = c3_state_a"
  by (simp add: c3_state_a_def setup_defs decode_defs)





text \<open>
  C5: \<open>setspeed\<close> of the decoder and of the encoder clamp a value of 0 or less to 1
  and set the dot time to \<open>1200/wpm\<close>, the dash time to \<open>3600/wpm\<close> and the word space to
  \<open>8400/wpm\<close>, each by integer division; at 13 words per minute these are 92, 276 and 646.
\<close>

theorem C5_setspeed_durations:
  "dotTime (decoder_setspeed v s) = 1200 div (if v \<le> 0 then 1 else v) \<and>
   dashTime (decoder_setspeed v s) = 3600 div (if v \<le> 0 then 1 else v) \<and>
   wordSpace (decoder_setspeed v s) = 8400 div (if v \<le> 0 then 1 else v) \<and>
   enc_dotTime (encoder_setspeed v e) = 1200 div (if v \<le> 0 then 1 else v) \<and>
   enc_dashTime (encoder_setspeed v e) = 3600 div (if v \<le> 0 then 1 else v) \<and>
   enc_wordSpace (encoder_setspeed v e) = 8400 div (if v \<le> 0 then 1 else v) \<and>
   dotTime (decoder_setspeed 13 s) = 92 \<and>
   dashTime (decoder_setspeed 13 s) = 276 \<and>
   wordSpace (decoder_setspeed 13 s) = 646 \<and>
   enc_dotTime (encoder_setspeed 13 e) = 92 \<and>
   enc_dashTime (encoder_setspeed 13 e) = 276 \<and>
   enc_wordSpace (encoder_setspeed 13 e) = 646"
  by (simp add: decoder_setspeed_def encoder_setspeed_def Let_def)

theorem C5_setspeed_durations_witness:
  "dotTime (decoder_setspeed (-4) (new_morseDecoder 0 False False)) = 1200 \<and>
   dashTime (decoder_setspeed 7 (new_morseDecoder 0 False False)) = 514 \<and>
   enc_wordSpace (encoder_setspeed 20 (new_morseEncoder 0)) = 420"
  using C5_setspeed_durations [of "-4" "new_morseDecoder 0 False False" "new_morseEncoder 0"]
        C5_setspeed_durations [of 7 "new_morseDecoder 0 False False" "new_morseEncoder 0"]
        C5_setspeed_durations [of 20 "new_morseDecoder 0 False False" "new_morseEncoder 0"]
  by simp

text \<open>
  At 13 words per minute the dash time is not 277 and the word space is not 7 dot times;
  at 7 words per minute the dash time is not 3 dot times.
\<close>

theorem C5_counterexample:
  "dashTime (decoder_setspeed 13 (new_morseDecoder 0 False False)) \<noteq> 277 \<and>
   wordSpace (decoder_setspeed 13 (new_morseDecoder 0 False False))
     \<noteq> 7 * dotTime (decoder_setspeed 13 (new_morseDecoder 0 False False)) \<and>
   dashTime (decoder_setspeed 7 (new_morseDecoder 0 False False))
     \<noteq> 3 * dotTime (decoder_setspeed 7 (new_morseDecoder 0 False False))"
  by (simp add: decoder_setspeed_def Let_def)

text \<open>
  C6: in a reachable state, a call of \<open>decode\<close> that finds the signal off, the
  space not yet written and the silence longer than two thirds of the word space writes
  the space and sets \<open>morseSpace\<close>; while the signal stays off, the loop reads that one
  space and no further one.
\<close>

theorem C6_one_space_per_silence:
  assumes "s = run_calls cs (new_morseDecoder decodePin listenAudio morsePullup)"
    and "s1 = read_signals level sample (s\<lparr> currentTime := t \<rparr>)"
    and "morseSpace s1 = False"
    and "t - spaceTime s1 > wordSpace s1 * 2 div 3"
    and "signal_stays_off ((t, level, sample) # ticks) s"
  shows "decodedMorseChar (decode t level sample s) = CHR '' '' \<and>
         morseSpace (decode t level sample s) \<and>
         hd (snd (poll ((t, level, sample) # ticks) (s, []))) = CHR '' '' \<and>
         count_list (snd (poll ((t, level, sample) # ticks) (s, []))) CHR '' '' = 1"
proof -
  let ?d = "decode t level sample s"
  let ?s3 = "write_character (classify_pulse s1)"
  from assms(5) have off: "\<not> morseSignalState ?d"
    and rest: "signal_stays_off ticks (fst (poll_step (s, []) (t, level, sample)))"
    by (simp_all add: poll_step_signal_state)
  have inv: "tree_inv s"
    unfolding assms(1) by (rule tree_inv_run_calls) (rule tree_inv_new)
  then have "tree_inv ?d" by (rule tree_inv_decode)
  have f: "currentTime ?s3 = t" "spaceTime ?s3 = spaceTime s1" "wordSpace ?s3 = wordSpace s1"
      "morseSpace ?s3 = False"
    using assms(3) by (simp_all add: assms(2) write_character_keeps classify_pulse_keeps read_signals_keeps)
  have d: "decodedMorseChar ?d = CHR '' ''" "morseSpace ?d"
    unfolding decode_signal_off [OF off] assms(2) [symmetric]
    using f assms(4) by (simp_all add: write_space_def)
  have ps: "poll_step (s, []) (t, level, sample) = (?d\<lparr> decodedMorseChar := CHR 0x00 \<rparr>, [CHR '' ''])"
    using d by (simp add: poll_step_def Let_def decoder_available_def decoder_read_def)
  have sp: "spaced (?d\<lparr> decodedMorseChar := CHR 0x00 \<rparr>)"
    using d \<open>tree_inv ?d\<close> by (simp add: spaced_def)
  from poll_spaced [OF sp, of ticks "[CHR '' '']"] rest ps
  obtain cs where e: "snd (poll ticks (?d\<lparr> decodedMorseChar := CHR 0x00 \<rparr>, [CHR '' ''])) = [CHR '' ''] @ cs"
     "CHR '' '' \<notin> set cs"
    by auto
  have p: "poll ((t, level, sample) # ticks) (s, []) = poll ticks (?d\<lparr> decodedMorseChar := CHR 0x00 \<rparr>, [CHR '' ''])"
    by (simp add: poll_def ps)
  have "count_list cs CHR '' '' = 0"
    using e(2) by (simp add: count_list_0_iff)
  then show ?thesis
    using d e(1) unfolding p by simp
qed

theorem C6_one_space_per_silence_witness:
  "count_list (snd (poll [(700, False, 0), (800, False, 0), (900, False, 0)] (c6_state, [])))
     CHR '' '' = 1"
proof -
  have e: "c6_state = (new_morseDecoder 0 False False)\<lparr> currentTime := 400, morseSpace := False,
      lastDebounceTime := 200, markTime := 100, spaceTime := 200 \<rparr>"
    by (simp add: c6_state_def run_calls_def decode_defs new_morseDecoder_def decoder_read_def)
  have 1: "morseSpace (read_signals False 0 (c6_state\<lparr> currentTime := 700 \<rparr>)) = False"
    and 2: "700 - spaceTime (read_signals False 0 (c6_state\<lparr> currentTime := 700 \<rparr>))
            > wordSpace (read_signals False 0 (c6_state\<lparr> currentTime := 700 \<rparr>)) * 2 div 3"
    by (simp_all add: e decode_defs new_morseDecoder_def)
  have 3: "signal_stays_off [(700, False, 0), (800, False, 0), (900, False, 0)] c6_state"
    by (simp add: e poll_step_def decode_defs new_morseDecoder_def decoder_available_def
        decoder_read_def)
  from C6_one_space_per_silence [OF c6_state_def refl 1 2 3] show ?thesis by simp
qed

text \<open>
  C7: the line that changes the character to a capital letter subtracts 32 from
  every character above \<open>Z\<close>: the underscore, a character of the table, becomes the
  question mark, and the signals sent for it are those of the question mark.
\<close>

theorem C7_underscore_sent_as_question_mark:
  "to_capital CHR ''_'' = CHR ''?'' \<and>
   encodeMorseChar (start_character ((new_morseEncoder 0)\<lparr> encodeMorseChar := CHR ''_'' \<rparr>)) = CHR ''?'' \<and>
   morseSignalString (start_character ((new_morseEncoder 0)\<lparr> encodeMorseChar := CHR ''_'' \<rparr>))
     = morseSignalString (start_character ((new_morseEncoder 0)\<lparr> encodeMorseChar := CHR ''?'' \<rparr>)) \<and>
   take 6 (morseSignalString (start_character ((new_morseEncoder 0)\<lparr> encodeMorseChar := CHR ''_'' \<rparr>)))
     = ''..--..''"
  by code_simp

text \<open>
  C8: a character that is not in the table is dropped only if it is still not in the
  table after the line that changes the character to a capital letter. That line
  subtracts 32 from every character above \<open>Z\<close> (the line of C7), so the opening bracket,
  the closing bracket, the grave accent and DEL, none of them a lowercase letter or a
  table entry, become the semicolon, the equals sign, the at sign and the underscore:
  the first call of \<open>encode\<close> after the write drives the output pin high and the
  signals of those table entries are sent.
\<close>

theorem C8_bracket_is_keyed:
  "CHR ''['' \<notin> set morseTable \<and> CHR '']'' \<notin> set morseTable \<and>
   CHR 0x60 \<notin> set morseTable \<and> CHR 0x7F \<notin> set morseTable \<and>
   encoder_available (new_morseEncoder 0) \<and> pinLog (new_morseEncoder 0) = [] \<and>
   encodeMorseChar (encoder_write CHR ''['' (new_morseEncoder 0)) = CHR ''['' \<and>
   pinLog (encode 0 (encoder_write CHR ''['' (new_morseEncoder 0))) = [True] \<and>
   encodeMorseChar (encode 0 (encoder_write CHR ''['' (new_morseEncoder 0))) = CHR '';'' \<and>
   take 6 (morseSignalString (encode 0 (encoder_write CHR ''['' (new_morseEncoder 0)))) = ''-.-.-.'' \<and>
   pinLog (encode 0 (encoder_write CHR '']'' (new_morseEncoder 0))) = [True] \<and>
   pinLog (encode 0 (encoder_write CHR 0x60 (new_morseEncoder 0))) = [True] \<and>
   pinLog (encode 0 (encoder_write CHR 0x7F (new_morseEncoder 0))) = [True]"
  by code_simp

text \<open>
  C9: in every state reached from the constructor by calls of \<open>decode\<close>,
  \<open>setspeed\<close> and \<open>read\<close>, the table pointer lies between 0 and 126, the jumper is one of
  32, 16, 8, 4, 2, 1, 0, and the pointer indexes the table.
\<close>

theorem C9_tree_state_in_range:
  "0 \<le> morseTablePointer (run_calls cs (new_morseDecoder decodePin listenAudio morsePullup)) \<and>
   morseTablePointer (run_calls cs (new_morseDecoder decodePin listenAudio morsePullup)) \<le> 126 \<and>
   morseTableJumper (run_calls cs (new_morseDecoder decodePin listenAudio morsePullup)) \<in> {32, 16, 8, 4, 2, 1, 0} \<and>
   nat (morseTablePointer (run_calls cs (new_morseDecoder decodePin listenAudio morsePullup))) < length morseTable"
proof -
  have "tree_inv (run_calls cs (new_morseDecoder decodePin listenAudio morsePullup))"
    by (rule tree_inv_run_calls) (rule tree_inv_new)
  from tree_inv_bounds [OF this] show ?thesis
    by (auto simp: length_morseTable)
qed

theorem C9_tree_state_in_range_witness:
  "morseTablePointer (run_calls [Decode 100 True 0, Decode 130 True 0, Decode 200 False 0,
       Decode 230 False 0, Decode 250 False 0] (new_morseDecoder 0 False False)) = 31 \<and>
   morseTableJumper (run_calls [Decode 100 True 0, Decode 130 True 0, Decode 200 False 0,
       Decode 230 False 0, Decode 250 False 0] (new_morseDecoder 0 False False)) = 16"
  using C9_tree_state_in_range [of "[Decode 100 True 0, Decode 130 True 0, Decode 200 False 0,
       Decode 230 False 0, Decode 250 False 0]" 0 False False]
  by (simp add: run_calls_def decode_defs new_morseDecoder_def)

text \<open>
  C10: \<open>available\<close> is true exactly when the slot holds a character other than NUL;
  \<open>read\<close> returns the slot and sets it to NUL, so it returns NUL when nothing is
  pending, and \<open>available\<close> is false right after it.
\<close>

theorem C10_available_and_read:
  "decoder_available s = (decodedMorseChar s \<noteq> CHR 0x00) \<and>
   fst (decoder_read s) = decodedMorseChar s \<and>
   snd (decoder_read s) = s\<lparr> decodedMorseChar := CHR 0x00 \<rparr> \<and>
   (\<not> decoder_available s \<longrightarrow> fst (decoder_read s) = CHR 0x00) \<and>
   \<not> decoder_available (snd (decoder_read s))"
  by (simp add: decoder_available_def decoder_read_def Let_def)

theorem C10_available_and_read_witness:
  "\<not> decoder_available (new_morseDecoder 0 False False) \<and>
   fst (decoder_read (new_morseDecoder 0 False False)) = CHR 0x00 \<and>
   decoder_available ((new_morseDecoder 0 False False)\<lparr> decodedMorseChar := CHR ''E'' \<rparr>) \<and>
   fst (decoder_read ((new_morseDecoder 0 False False)\<lparr> decodedMorseChar := CHR ''E'' \<rparr>)) = CHR ''E''"
  using C10_available_and_read [of "new_morseDecoder 0 False False"]
        C10_available_and_read [of "(new_morseDecoder 0 False False)\<lparr> decodedMorseChar := CHR ''E'' \<rparr>"]
  by (simp add: new_morseDecoder_def)

end
